theory Spec2Isabelle
  imports Complex_Main "HOL-Library.Word"
begin

section \<open>JavaScript numbers and the coercion \<open>index | 0\<close>\<close>

text \<open>
  The indices of \<open>PanelLayout\<close> are TypeScript \<open>number\<close>s: a finite value, \<open>NaN\<close> or an
  infinity. \<open>x | 0\<close> is ECMAScript's ToInt32: the value is truncated towards zero and
  reduced modulo \<open>2^32\<close> into the signed 32-bit range; \<open>NaN\<close> and the infinities give 0.
\<close>

datatype number = Num real | NaN | PosInfinity | NegInfinity

definition trunc_number :: "real \<Rightarrow> int" where
  "trunc_number r = (if r < 0 then \<lceil>r\<rceil> else \<lfloor>r\<rfloor>)"

definition toInt32 :: "number \<Rightarrow> int" where
  "toInt32 x = (case x of Num r \<Rightarrow> sint (word_of_int (trunc_number r) :: 32 word) | _ \<Rightarrow> 0)"

section \<open>Collaborators outside the repository\<close>

subsection \<open>Arrays (package phosphor-arrays and \<open>Array.prototype\<close>)\<close>

text \<open>\<open>Array.prototype.indexOf\<close>: the first position of the value, or \<open>-1\<close>.\<close>

fun indexOf :: "'a list \<Rightarrow> 'a \<Rightarrow> int" where
  "indexOf [] v = - 1"
| "indexOf (x # xs) v =
     (if x = v then 0 else (let k = indexOf xs v in if k = - 1 then - 1 else k + 1))"

text \<open>\<open>arrays.insert(array, index, value)\<close>: the index is clamped to the bounds of the array.\<close>

definition arrays_insert :: "'a list \<Rightarrow> int \<Rightarrow> 'a \<Rightarrow> 'a list" where
  "arrays_insert xs index v =
     (let j = nat (max 0 (min index (int (length xs)))) in take j xs @ v # drop j xs)"

text \<open>
  \<open>arrays.move(array, fromIndex, toIndex)\<close>: nothing happens when an index is out of range;
  otherwise the value leaves \<open>fromIndex\<close> and lands at \<open>toIndex\<close>, the values between
  shifting by one.
\<close>

definition arrays_move :: "'a list \<Rightarrow> int \<Rightarrow> int \<Rightarrow> 'a list" where
  "arrays_move xs i j =
     (if i < 0 \<or> int (length xs) \<le> i \<or> j < 0 \<or> int (length xs) \<le> j then xs
      else let v = xs ! nat i; ys = take (nat i) xs @ drop (Suc (nat i)) xs
           in take (nat j) ys @ v # drop (nat j) ys)"

text \<open>
  \<open>arrays.remove(array, value)\<close>: removes the first occurrence and returns its index,
  \<open>-1\<close> when the value does not occur.
\<close>

definition arrays_remove :: "'a list \<Rightarrow> 'a \<Rightarrow> int \<times> 'a list" where
  "arrays_remove xs v = (indexOf xs v, remove1 v xs)"

subsection \<open>Widgets, messages and the state of one layout\<close>

text \<open>
  A widget is an opaque handle compared by identity. Each widget owns one DOM node, so a
  node is named by its widget. The container is the widget the layout is installed on:
  its identity, whether it is attached to the DOM, and the children of its node in
  document order.
\<close>

type_synonym widget = nat

datatype error = TypeError | NotFoundError | LayoutParentError

datatype message = AfterAttach | BeforeDetach | ChildAdded widget | ChildRemoved widget

datatype event =
    Send widget message
  | CallAttach int widget
  | CallMove int int widget
  | CallDetach int widget
  | CallDispose widget

record container =
  wid :: widget
  isAttached :: bool
  node :: "widget list"

text \<open>
  The layout: \<open>children\<close> is the private array \<open>_children\<close>, \<open>parent\<close> is \<open>this.parent\<close>
  (\<open>None\<close> for \<open>null\<close>). \<open>wparent\<close> and \<open>wdisposed\<close> are the \<open>parent\<close> and \<open>isDisposed\<close>
  properties of the widgets, \<open>disposed\<close> that of the layout. \<open>trace\<close> records, in order,
  every message sent with \<open>sendMessage\<close>, every call of an overridable hook and every
  call of a child's \<open>dispose\<close>.
\<close>

record layout =
  children :: "widget list"
  parent :: "container option"
  wparent :: "widget \<Rightarrow> widget option"
  wdisposed :: "widget \<Rightarrow> bool"
  disposed :: bool
  trace :: "event list"

definition log :: "event \<Rightarrow> layout \<Rightarrow> layout" where
  "log e s = s\<lparr>trace := trace s @ [e]\<rparr>"

text \<open>\<open>sendMessage(target, msg)\<close> of phosphor-messaging: a synchronous delivery.\<close>

definition sendMessage :: "widget \<Rightarrow> message \<Rightarrow> layout \<Rightarrow> layout" where
  "sendMessage target m s = log (Send target m) s"

subsection \<open>The DOM\<close>

text \<open>
  \<open>parent.insertBefore(new, ref)\<close>: with no reference node the new node goes to the end;
  a reference node that is not a child of \<open>parent\<close> raises \<open>NotFoundError\<close>; a node that is
  already in the tree is taken out of its old place first; inserting a node before
  itself leaves the tree as it is.
\<close>

definition insertBefore :: "widget list \<Rightarrow> widget \<Rightarrow> widget option \<Rightarrow> error + widget list" where
  "insertBefore ns new ref =
     (case ref of
        None \<Rightarrow> Inr (remove1 new ns @ [new])
      | Some r \<Rightarrow>
          if r \<notin> set ns then Inl NotFoundError
          else if r = new then Inr ns
          else let ms = remove1 new ns
               in Inr (takeWhile (\<lambda>x. x \<noteq> r) ms @ new # dropWhile (\<lambda>x. x \<noteq> r) ms))"

text \<open>\<open>parent.removeChild(old)\<close>: raises \<open>NotFoundError\<close> when \<open>old\<close> is not a child.\<close>

definition removeChild :: "widget list \<Rightarrow> widget \<Rightarrow> error + widget list" where
  "removeChild ns old = (if old \<in> set ns then Inr (remove1 old ns) else Inl NotFoundError)"

section \<open>PanelLayout\<close>

text \<open>
  Every operation returns the state it leaves behind together with the exception it
  raised, if any: the effects before a \<open>throw\<close> stay.
\<close>

type_synonym outcome = "error option \<times> layout"

definition childCount :: "layout \<Rightarrow> int" where
  "childCount s = int (length (children s))"

text \<open>
  \<open>this._children[index]\<close>: an array has an element only at an integral index from 0
  to length - 1; every other number reads \<open>undefined\<close>.
\<close>

definition childAt :: "layout \<Rightarrow> number \<Rightarrow> widget option" where
  "childAt s index =
     (case index of
        Num r \<Rightarrow>
          if r = of_int \<lfloor>r\<rfloor> \<and> 0 \<le> r \<and> r < of_int (childCount s)
          then Some (children s ! nat \<lfloor>r\<rfloor>) else None
      | _ \<Rightarrow> None)"

definition attachChild :: "int \<Rightarrow> widget \<Rightarrow> layout \<Rightarrow> outcome" where
  "attachChild index child s0 =
     (let s = log (CallAttach index child) s0;
          ref = childAt s (Num (of_int (index + 1)))
      in case parent s of
           None \<Rightarrow> (Some TypeError, s)
         | Some p \<Rightarrow>
             (case insertBefore (node p) child ref of
                Inl e \<Rightarrow> (Some e, s)
              | Inr ns \<Rightarrow>
                  let s = s\<lparr>parent := Some (p\<lparr>node := ns\<rparr>)\<rparr>
                  in (None, if isAttached p then sendMessage child AfterAttach s else s)))"

definition moveChild :: "int \<Rightarrow> int \<Rightarrow> widget \<Rightarrow> layout \<Rightarrow> outcome" where
  "moveChild fromIndex toIndex child s0 =
     (let s = log (CallMove fromIndex toIndex child) s0;
          ref = childAt s (Num (of_int (toIndex + 1)))
      in case parent s of
           None \<Rightarrow> (Some TypeError, s)
         | Some p \<Rightarrow>
             let s = (if isAttached p then sendMessage child BeforeDetach s else s)
             in (case insertBefore (node p) child ref of
                   Inl e \<Rightarrow> (Some e, s)
                 | Inr ns \<Rightarrow>
                     let s = s\<lparr>parent := Some (p\<lparr>node := ns\<rparr>)\<rparr>
                     in (None, if isAttached p then sendMessage child AfterAttach s else s)))"

definition detachChild :: "int \<Rightarrow> widget \<Rightarrow> layout \<Rightarrow> outcome" where
  "detachChild index child s0 =
     (let s = log (CallDetach index child) s0
      in case parent s of
           None \<Rightarrow> (Some TypeError, s)
         | Some p \<Rightarrow>
             let s = (if isAttached p then sendMessage child BeforeDetach s else s)
             in (case removeChild (node p) child of
                   Inl e \<Rightarrow> (Some e, s)
                 | Inr ns \<Rightarrow> (None, s\<lparr>parent := Some (p\<lparr>node := ns\<rparr>)\<rparr>)))"

definition onChildRemoved :: "widget \<Rightarrow> layout \<Rightarrow> outcome" where
  "onChildRemoved child s0 =
     (let (i, cs) = arrays_remove (children s0) child;
          s = s0\<lparr>children := cs\<rparr>
      in if i \<noteq> - 1 then detachChild i child s else (None, s))"

subsection \<open>The parent of a widget and the disposal of a child\<close>

text \<open>
  Modelled from the spec: the container forwards a message it receives to its layout,
  whose only handler in this class is the one for \<open>child-removed\<close>. A message to any
  other widget does not reach this layout.
\<close>

definition processParentMessage :: "widget \<Rightarrow> message \<Rightarrow> layout \<Rightarrow> outcome" where
  "processParentMessage target m s =
     (case parent s of
        None \<Rightarrow> (None, s)
      | Some p \<Rightarrow>
          if wid p = target
          then (case m of ChildRemoved c \<Rightarrow> onChildRemoved c s | _ \<Rightarrow> (None, s))
          else (None, s))"

text \<open>
  Modelled from the spec: the parent-assignment setter of a widget (\<open>child.parent = value\<close>).
  Assigning the parent the widget already has does nothing. Otherwise the old parent, if
  any, is told \<open>child-removed\<close> (this is the removal notification the layout receives when
  it is installed on that parent), the link is changed, and the new parent, if any, is
  told \<open>child-added\<close>.
\<close>

definition set_parent :: "widget \<Rightarrow> widget option \<Rightarrow> layout \<Rightarrow> outcome" where
  "set_parent child v s0 =
     (if wparent s0 child = v then (None, s0)
      else
        let r = (case wparent s0 child of
                   None \<Rightarrow> (None, s0)
                 | Some q \<Rightarrow> processParentMessage q (ChildRemoved child)
                              (sendMessage q (ChildRemoved child) s0))
        in case r of
             (Some e, s) \<Rightarrow> (Some e, s)
           | (None, s) \<Rightarrow>
               let s = s\<lparr>wparent := (wparent s)(child := v)\<rparr>
               in (case v of
                     None \<Rightarrow> (None, s)
                   | Some p \<Rightarrow> processParentMessage p (ChildAdded child)
                                (sendMessage p (ChildAdded child) s)))"

text \<open>
  Modelled from the spec: \<open>child.dispose()\<close>. A widget is disposed at most once; its
  disposal clears its parent link, which is what triggers its removal notification.
\<close>

definition widget_dispose :: "widget \<Rightarrow> layout \<Rightarrow> outcome" where
  "widget_dispose child s0 =
     (let s = log (CallDispose child) s0
      in if wdisposed s child then (None, s)
         else set_parent child None (s\<lparr>wdisposed := (wdisposed s)(child := True)\<rparr>))"

subsection \<open>The public operations\<close>

definition insertChild :: "number \<Rightarrow> widget \<Rightarrow> layout \<Rightarrow> outcome" where
  "insertChild index child s0 =
     (case set_parent child (map_option wid (parent s0)) s0 of
        (Some e, s) \<Rightarrow> (Some e, s)
      | (None, s) \<Rightarrow>
          let n = int (length (children s));
              i = indexOf (children s) child;
              j = max 0 (min (toInt32 index) n)
          in if i \<noteq> - 1 then
               (let j = (if j = n then j - 1 else j)
                in if i = j then (None, s)
                   else let s = s\<lparr>children := arrays_move (children s) i j\<rparr>
                        in if parent s \<noteq> None then moveChild i j child s else (None, s))
             else
               (let s = s\<lparr>children := arrays_insert (children s) j child\<rparr>
                in if parent s \<noteq> None then attachChild j child s else (None, s)))"

definition addChild :: "widget \<Rightarrow> layout \<Rightarrow> outcome" where
  "addChild child s = insertChild (Num (of_int (childCount s))) child s"

subsection \<open>The two loops\<close>

text \<open>
  Both loops end because their bodies never add a child to the sequence: the hooks leave
  it alone, and the parent setter can only take the widget out of it.
\<close>

lemma children_log [simp]: "children (log e s) = children s"
  and parent_log [simp]: "parent (log e s) = parent s"
  and wparent_log [simp]: "wparent (log e s) = wparent s"
  and wdisposed_log [simp]: "wdisposed (log e s) = wdisposed s"
  and disposed_log [simp]: "disposed (log e s) = disposed s"
  and trace_log [simp]: "trace (log e s) = trace s @ [e]"
  by (simp_all add: log_def)

lemma children_sendMessage [simp]: "children (sendMessage t m s) = children s"
  and parent_sendMessage [simp]: "parent (sendMessage t m s) = parent s"
  and wparent_sendMessage [simp]: "wparent (sendMessage t m s) = wparent s"
  and wdisposed_sendMessage [simp]: "wdisposed (sendMessage t m s) = wdisposed s"
  and disposed_sendMessage [simp]: "disposed (sendMessage t m s) = disposed s"
  and trace_sendMessage [simp]: "trace (sendMessage t m s) = trace s @ [Send t m]"
  by (simp_all add: sendMessage_def)

lemma children_attachChild [simp]: "children (snd (attachChild i c s)) = children s"
  by (simp add: attachChild_def Let_def split: option.splits sum.splits)

lemma children_moveChild [simp]: "children (snd (moveChild i j c s)) = children s"
  by (simp add: moveChild_def Let_def split: option.splits sum.splits)

lemma children_detachChild [simp]: "children (snd (detachChild i c s)) = children s"
  by (simp add: detachChild_def Let_def split: option.splits sum.splits)

lemma children_onChildRemoved [simp]:
  "children (snd (onChildRemoved c s)) = remove1 c (children s)"
  by (simp add: onChildRemoved_def arrays_remove_def Let_def)

lemma children_processParentMessage:
  "children (snd (processParentMessage t (ChildRemoved c) s)) = children s \<or>
   children (snd (processParentMessage t (ChildRemoved c) s)) = remove1 c (children s)"
  by (simp add: processParentMessage_def split: option.splits)

lemma processParentMessage_ChildAdded [simp]:
  "processParentMessage t (ChildAdded c) s = (None, s)"
  by (simp add: processParentMessage_def split: option.splits)

lemma children_set_parent:
  "children (snd (set_parent c v s)) = children s \<or>
   children (snd (set_parent c v s)) = remove1 c (children s)"
proof (cases "wparent s c = v")
  case True
  then show ?thesis by (simp add: set_parent_def)
next
  case False
  show ?thesis
  proof (cases "wparent s c")
    case None
    with False show ?thesis
      by (simp add: set_parent_def Let_def split: option.splits)
  next
    case (Some q)
    obtain e s1 where r: "processParentMessage q (ChildRemoved c)
        (sendMessage q (ChildRemoved c) s) = (e, s1)"
      by (cases "processParentMessage q (ChildRemoved c) (sendMessage q (ChildRemoved c) s)")
    from children_processParentMessage [of q c "sendMessage q (ChildRemoved c) s"] r
    have "children s1 = children s \<or> children s1 = remove1 c (children s)"
      by auto
    with False Some r show ?thesis
      by (cases e) (auto simp add: set_parent_def Let_def split: option.splits)
  qed
qed

lemma length_children_set_parent:
  "length (children (snd (set_parent c v s))) \<le> length (children s)"
  using children_set_parent [of c v s]
  by (auto simp add: length_remove1)

lemma children_set_parent_container [simp]:
  "children (snd (set_parent c (map_option wid (parent s)) s)) = children s"
  by (cases "parent s"; cases "wparent s c")
     (auto simp add: set_parent_def processParentMessage_def Let_def)

text \<open>
  \<open>initialize\<close>: the loop \<open>for (let i = 0; i < this.childCount(); ++i)\<close>, which reads the
  count again at every turn.
\<close>

function initialize_from :: "int \<Rightarrow> layout \<Rightarrow> outcome" where
  "initialize_from i s =
     (if i < childCount s then
        (case childAt s (Num (of_int i)) of
           None \<Rightarrow> (Some TypeError, s)
         | Some child \<Rightarrow>
             (case set_parent child (map_option wid (parent s)) s of
                (Some e, s1) \<Rightarrow> (Some e, s1)
              | (None, s1) \<Rightarrow>
                  (case attachChild i child s1 of
                     (Some e, s2) \<Rightarrow> (Some e, s2)
                   | (None, s2) \<Rightarrow> initialize_from (i + 1) s2)))
      else (None, s))"
  by pat_completeness auto
termination
proof (relation "measure (\<lambda>(i, s). nat (childCount s - i))")
  show "wf (measure (\<lambda>(i, s). nat (childCount s - i)))"
    by simp
next
  fix i :: int and s :: layout and child x s1 y s2
  assume lt: "i < childCount s"
    and sp: "(x, s1) = set_parent child (map_option wid (parent s)) s"
    and at: "(y, s2) = attachChild i child s1"
  have "children s1 = children s"
    using children_set_parent_container [of child s] sp [symmetric] by simp
  moreover have "children s2 = children s1"
    using children_attachChild [of i child s1] at [symmetric] by simp
  ultimately show "((i + 1, s2), (i, s)) \<in> measure (\<lambda>(i, s). nat (childCount s - i))"
    using lt by (simp add: childCount_def)
qed

definition initialize :: "layout \<Rightarrow> outcome" where
  "initialize s = initialize_from 0 s"

text \<open>
  Modelled from the spec: installing the layout on its container sets \<open>this.parent\<close>,
  which happens once, and calls \<open>initialize\<close>.
\<close>

definition install :: "container \<Rightarrow> layout \<Rightarrow> outcome" where
  "install p s =
     (if parent s \<noteq> None then (Some LayoutParentError, s)
      else initialize (s\<lparr>parent := Some p\<rparr>))"

lemma length_children_widget_dispose:
  "length (children (snd (widget_dispose c s))) \<le> length (children s)"
  using length_children_set_parent [of c None "(log (CallDispose c) s)\<lparr>wdisposed :=
      (wdisposed (log (CallDispose c) s))(c := True)\<rparr>"]
  by (simp add: widget_dispose_def Let_def)

text \<open>
  \<open>dispose\<close>: the loop \<open>while (this._children.length > 0) this._children.pop().dispose()\<close>,
  then \<open>super.dispose()\<close>, which marks the layout disposed.
\<close>

function dispose_loop :: "layout \<Rightarrow> outcome" where
  "dispose_loop s =
     (if length (children s) > 0 then
        (case widget_dispose (last (children s)) (s\<lparr>children := butlast (children s)\<rparr>) of
           (Some e, s1) \<Rightarrow> (Some e, s1)
         | (None, s1) \<Rightarrow> dispose_loop s1)
      else (None, s))"
  by pat_completeness auto
termination
proof (relation "measure (\<lambda>s. length (children s))")
  show "wf (measure (\<lambda>s. length (children s)))"
    by simp
next
  fix s :: layout and x s1
  assume ne: "0 < length (children s)"
    and wd: "(x, s1) = widget_dispose (last (children s)) (s\<lparr>children := butlast (children s)\<rparr>)"
  have le: "length (children s1) \<le> length (children s) - 1"
    using length_children_widget_dispose [of "last (children s)" "s\<lparr>children := butlast (children s)\<rparr>"]
      wd [symmetric] by simp
  from ne le have "length (children s1) < length (children s)"
    by linarith
  then show "(s1, s) \<in> measure (\<lambda>s. length (children s))"
    by simp
qed

definition dispose :: "layout \<Rightarrow> outcome" where
  "dispose s =
     (case dispose_loop s of
        (Some e, s1) \<Rightarrow> (Some e, s1)
      | (None, s1) \<Rightarrow> (None, s1\<lparr>disposed := True\<rparr>))"

declare initialize_from.simps [simp del]
declare dispose_loop.simps [simp del]

subsection \<open>Runs of the layout\<close>

text \<open>
  What the outside can do to a layout: insert or append a child, deliver the
  \<open>child-removed\<close> notification, assign the parent of a widget, install the layout on a
  container, dispose it. A layout starts with no children and no parent.
\<close>

datatype operation =
    Insert number widget
  | Add widget
  | Removed widget
  | SetParent widget "widget option"
  | Install container
  | Dispose

fun exec :: "operation \<Rightarrow> layout \<Rightarrow> outcome" where
  "exec (Insert index c) s = insertChild index c s"
| "exec (Add c) s = addChild c s"
| "exec (Removed c) s = onChildRemoved c s"
| "exec (SetParent c v) s = set_parent c v s"
| "exec (Install p) s = install p s"
| "exec Dispose s = dispose s"

inductive reachable :: "layout \<Rightarrow> bool" where
  fresh: "children s = [] \<Longrightarrow> parent s = None \<Longrightarrow> reachable s"
| step: "reachable s \<Longrightarrow> reachable (snd (exec op s))"

section \<open>Observations\<close>

text \<open>
  What a trace shows: the calls of the three hooks, the messages with their targets,
  the children whose \<open>dispose\<close> was called, the children \<open>detachChild\<close> was called for, and
  the lifecycle messages among the messages.
\<close>

fun hook_calls :: "event list \<Rightarrow> event list" where
  "hook_calls [] = []"
| "hook_calls (CallAttach i c # es) = CallAttach i c # hook_calls es"
| "hook_calls (CallMove i j c # es) = CallMove i j c # hook_calls es"
| "hook_calls (CallDetach i c # es) = CallDetach i c # hook_calls es"
| "hook_calls (e # es) = hook_calls es"

fun messages :: "event list \<Rightarrow> (widget \<times> message) list" where
  "messages [] = []"
| "messages (Send t m # es) = (t, m) # messages es"
| "messages (e # es) = messages es"

fun dispose_calls :: "event list \<Rightarrow> widget list" where
  "dispose_calls [] = []"
| "dispose_calls (CallDispose c # es) = c # dispose_calls es"
| "dispose_calls (e # es) = dispose_calls es"

fun detach_calls :: "event list \<Rightarrow> widget list" where
  "detach_calls [] = []"
| "detach_calls (CallDetach i c # es) = c # detach_calls es"
| "detach_calls (e # es) = detach_calls es"

definition lifecycle :: "event list \<Rightarrow> (widget \<times> message) list" where
  "lifecycle es = filter (\<lambda>(t, m). m = AfterAttach \<or> m = BeforeDetach) (messages es)"

definition parent_events :: "widget \<Rightarrow> widget option \<Rightarrow> widget option \<Rightarrow> event list" where
  "parent_events c old new =
     (if old = new then []
      else (case old of None \<Rightarrow> [] | Some q \<Rightarrow> [Send q (ChildRemoved c)]) @
           (case new of None \<Rightarrow> [] | Some p \<Rightarrow> [Send p (ChildAdded c)]))"

definition reparent :: "widget \<Rightarrow> widget option \<Rightarrow> layout \<Rightarrow> layout" where
  "reparent c v s =
     s\<lparr>wparent := (wparent s)(c := v), trace := trace s @ parent_events c (wparent s c) v\<rparr>"

text \<open>The container is live: there is one and it is attached to the DOM.\<close>

definition live :: "layout \<Rightarrow> bool" where
  "live s = (case parent s of None \<Rightarrow> False | Some p \<Rightarrow> isAttached p)"

text \<open>
  The state of a child with respect to the layout: it is in the sequence or not, and its
  node is among the children of the container's node or not.
\<close>

datatype status = Absent | PresentDetached | PresentAttached

definition attached :: "layout \<Rightarrow> widget \<Rightarrow> bool" where
  "attached s c = (case parent s of None \<Rightarrow> False | Some p \<Rightarrow> c \<in> set (node p))"

definition status :: "layout \<Rightarrow> widget \<Rightarrow> status" where
  "status s c =
     (if c \<notin> set (children s) then Absent
      else if attached s c then PresentAttached else PresentDetached)"

section \<open>Example states\<close>

text \<open>\<open>new PanelLayout()\<close>, in a world where no widget has a parent yet.\<close>

definition new_layout :: layout where
  "new_layout = \<lparr>children = [], parent = None, wparent = (\<lambda>_. None),
     wdisposed = (\<lambda>_. False), disposed = False, trace = []\<rparr>"

text \<open>A container widget with an empty node, attached to the DOM or not.\<close>

definition panel :: "bool \<Rightarrow> container" where
  "panel a = \<lparr>wid = 100, isAttached = a, node = []\<rparr>"

section \<open>Facts\<close>

lemma hook_calls_append [simp]: "hook_calls (xs @ ys) = hook_calls xs @ hook_calls ys"
  by (induction xs rule: hook_calls.induct) simp_all

lemma messages_append [simp]: "messages (xs @ ys) = messages xs @ messages ys"
  by (induction xs rule: messages.induct) simp_all

lemma dispose_calls_append [simp]: "dispose_calls (xs @ ys) = dispose_calls xs @ dispose_calls ys"
  by (induction xs rule: dispose_calls.induct) simp_all

lemma lifecycle_append [simp]: "lifecycle (xs @ ys) = lifecycle xs @ lifecycle ys"
  by (simp add: lifecycle_def)

lemma lifecycle_Nil [simp]: "lifecycle [] = []"
  by (simp add: lifecycle_def)

lemma parent_events_quiet [simp]:
  "hook_calls (parent_events c old new) = []"
  "lifecycle (parent_events c old new) = []"
  "dispose_calls (parent_events c old new) = []"
  by (simp_all add: parent_events_def lifecycle_def split: option.splits)

lemma reparent_simps [simp]:
  "children (reparent c v s) = children s"
  "parent (reparent c v s) = parent s"
  "wparent (reparent c v s) = (wparent s)(c := v)"
  "wdisposed (reparent c v s) = wdisposed s"
  "disposed (reparent c v s) = disposed s"
  "trace (reparent c v s) = trace s @ parent_events c (wparent s c) v"
  by (simp_all add: reparent_def)

subsection \<open>Facts about \<open>indexOf\<close>\<close>

lemma indexOf_ge: "- 1 \<le> indexOf xs v"
  by (induction xs) (simp_all add: Let_def)

lemma indexOf_absent: "indexOf xs v = - 1 \<longleftrightarrow> v \<notin> set xs"
proof (induction xs)
  case Nil
  then show ?case by simp
next
  case (Cons x xs)
  from indexOf_ge [of xs v] Cons show ?case
    by (auto simp add: Let_def)
qed

lemma indexOf_bounds: "v \<in> set xs \<Longrightarrow> 0 \<le> indexOf xs v \<and> indexOf xs v < int (length xs)"
  by (induction xs) (auto simp add: Let_def indexOf_absent)

lemma indexOf_nth: "v \<in> set xs \<Longrightarrow> xs ! nat (indexOf xs v) = v"
proof (induction xs)
  case Nil
  then show ?case by simp
next
  case (Cons x xs)
  show ?case
  proof (cases "x = v")
    case True
    then show ?thesis by simp
  next
    case False
    with Cons.prems have m: "v \<in> set xs" by simp
    from indexOf_bounds [OF m] have "nat (indexOf xs v + 1) = Suc (nat (indexOf xs v))"
      by arith
    with False m Cons.IH show ?thesis
      by (simp add: Let_def indexOf_absent)
  qed
qed

lemma indexOf_append_fresh: "v \<notin> set as \<Longrightarrow> indexOf (as @ v # bs) v = int (length as)"
  by (induction as) (auto simp add: Let_def)

lemma remove1_indexOf:
  "v \<in> set xs \<Longrightarrow>
   take (nat (indexOf xs v)) xs @ drop (Suc (nat (indexOf xs v))) xs = remove1 v xs"
proof (induction xs)
  case Nil
  then show ?case by simp
next
  case (Cons x xs)
  show ?case
  proof (cases "x = v")
    case True
    then show ?thesis by simp
  next
    case False
    with Cons.prems have m: "v \<in> set xs" by simp
    from indexOf_bounds [OF m] have "nat (indexOf xs v + 1) = Suc (nat (indexOf xs v))"
      by arith
    with False m Cons.IH show ?thesis
      by (simp add: Let_def indexOf_absent)
  qed
qed

subsection \<open>Facts about the array operations\<close>

lemma arrays_move_indexOf:
  assumes "v \<in> set xs" and "0 \<le> j" and "j < int (length xs)"
  shows "arrays_move xs (indexOf xs v) j =
         take (nat j) (remove1 v xs) @ v # drop (nat j) (remove1 v xs)"
  using assms indexOf_bounds [OF assms(1)]
  by (simp add: arrays_move_def Let_def remove1_indexOf indexOf_nth)

lemma set_insert_mid: "set (take j xs @ v # drop j xs) = insert v (set xs)"
proof -
  have "set (take j xs) \<union> set (drop j xs) = set xs"
    by (metis append_take_drop_id set_append)
  then show ?thesis by auto
qed

lemma distinct_insert_mid:
  "distinct xs \<Longrightarrow> v \<notin> set xs \<Longrightarrow> distinct (take j xs @ v # drop j xs)"
proof -
  assume d: "distinct xs" and n: "v \<notin> set xs"
  have "distinct (take j xs @ drop j xs)" using d by simp
  then have "distinct (take j xs)" "distinct (drop j xs)" "set (take j xs) \<inter> set (drop j xs) = {}"
    by (simp_all only: distinct_append) 
  moreover have "v \<notin> set (take j xs)" "v \<notin> set (drop j xs)"
    using n by (auto dest: in_set_takeD in_set_dropD)
  ultimately show ?thesis by auto
qed

lemma filter_insert_mid:
  "filter (\<lambda>x. x \<noteq> v) (take j xs @ v # drop j xs) = filter (\<lambda>x. x \<noteq> v) xs"
proof -
  have "filter (\<lambda>x. x \<noteq> v) (take j xs @ v # drop j xs) =
        filter (\<lambda>x. x \<noteq> v) (take j xs) @ filter (\<lambda>x. x \<noteq> v) (drop j xs)"
    by simp
  also have "\<dots> = filter (\<lambda>x. x \<noteq> v) (take j xs @ drop j xs)"
    by (simp only: filter_append)
  also have "\<dots> = filter (\<lambda>x. x \<noteq> v) xs"
    by (simp only: append_take_drop_id)
  finally show ?thesis .
qed

lemma filter_remove1_self: "filter (\<lambda>x. x \<noteq> v) (remove1 v xs) = filter (\<lambda>x. x \<noteq> v) xs"
  by (induction xs) simp_all

lemma insert_set_remove1: "insert x (set (remove1 x xs)) = insert x (set xs)"
  by (induction xs) auto

lemma length_remove1_mem: "v \<in> set xs \<Longrightarrow> length (remove1 v xs) = length xs - 1"
  by (simp add: length_remove1)

subsection \<open>What the hooks leave alone\<close>

lemma attachChild_fields [simp]:
  "wparent (snd (attachChild i c s)) = wparent s"
  "wdisposed (snd (attachChild i c s)) = wdisposed s"
  "disposed (snd (attachChild i c s)) = disposed s"
  "hook_calls (trace (snd (attachChild i c s))) = hook_calls (trace s) @ [CallAttach i c]"
  "dispose_calls (trace (snd (attachChild i c s))) = dispose_calls (trace s)"
  by (simp_all add: attachChild_def Let_def split: option.splits sum.splits)

lemma moveChild_fields [simp]:
  "wparent (snd (moveChild i j c s)) = wparent s"
  "wdisposed (snd (moveChild i j c s)) = wdisposed s"
  "disposed (snd (moveChild i j c s)) = disposed s"
  "hook_calls (trace (snd (moveChild i j c s))) = hook_calls (trace s) @ [CallMove i j c]"
  "dispose_calls (trace (snd (moveChild i j c s))) = dispose_calls (trace s)"
  by (simp_all add: moveChild_def Let_def split: option.splits sum.splits)

lemma detachChild_fields [simp]:
  "wparent (snd (detachChild i c s)) = wparent s"
  "wdisposed (snd (detachChild i c s)) = wdisposed s"
  "disposed (snd (detachChild i c s)) = disposed s"
  "hook_calls (trace (snd (detachChild i c s))) = hook_calls (trace s) @ [CallDetach i c]"
  "dispose_calls (trace (snd (detachChild i c s))) = dispose_calls (trace s)"
  by (simp_all add: detachChild_def Let_def split: option.splits sum.splits)

lemma onChildRemoved_absent: "c \<notin> set (children s) \<Longrightarrow> onChildRemoved c s = (None, s)"
  by (simp add: onChildRemoved_def arrays_remove_def indexOf_absent remove1_idem)

lemma set_parent_absent:
  assumes "c \<notin> set (children s)"
  shows "set_parent c v s = (None, reparent c v s)"
proof (cases "wparent s c = v")
  case True
  then have "(wparent s)(c := v) = wparent s" by auto
  with True show ?thesis by (simp add: set_parent_def reparent_def parent_events_def)
next
  case False
  show ?thesis
  proof (cases "wparent s c")
    case None
    with False show ?thesis
      by (cases v) (simp_all add: set_parent_def reparent_def parent_events_def sendMessage_def log_def)
  next
    case (Some q)
    have "processParentMessage q (ChildRemoved c) (sendMessage q (ChildRemoved c) s)
          = (None, sendMessage q (ChildRemoved c) s)"
      using assms by (simp add: processParentMessage_def onChildRemoved_absent split: option.splits)
    with False Some show ?thesis
      by (cases v) (simp_all add: set_parent_def reparent_def parent_events_def sendMessage_def log_def)
  qed
qed

lemma set_parent_container:
  "set_parent c (map_option wid (parent s)) s = (None, reparent c (map_option wid (parent s)) s)"
proof (cases "wparent s c = map_option wid (parent s)")
  case True
  then have "(wparent s)(c := map_option wid (parent s)) = wparent s" by auto
  with True show ?thesis by (simp add: set_parent_def reparent_def parent_events_def)
next
  case False
  show ?thesis
  proof (cases "wparent s c")
    case None
    with False show ?thesis
      by (cases "parent s") (simp_all add: set_parent_def reparent_def parent_events_def sendMessage_def log_def)
  next
    case (Some q)
    have "processParentMessage q (ChildRemoved c) (sendMessage q (ChildRemoved c) s)
          = (None, sendMessage q (ChildRemoved c) s)"
      using False Some by (auto simp add: processParentMessage_def split: option.splits)
    with False Some show ?thesis
      by (cases "parent s") (simp_all add: set_parent_def reparent_def parent_events_def sendMessage_def log_def)
  qed
qed

lemma parent_children_update: "parent (r\<lparr>children := cs\<rparr>) = parent r"
  by simp

subsection \<open>Facts about \<open>toInt32\<close>\<close>

lemma toInt32_Num: "toInt32 (Num r) = (trunc_number r + 2147483648) mod 4294967296 - 2147483648"
  by (simp add: toInt32_def int_word_sint)

lemma toInt32_small:
  assumes "- 2147483649 < r" and "r < 2147483648"
  shows "toInt32 (Num r) = (if r < 0 then \<lceil>r\<rceil> else \<lfloor>r\<rfloor>)"
proof -
  have lo: "- 2147483648 \<le> trunc_number r"
    using assms(1) by (auto simp add: trunc_number_def le_ceiling_iff le_floor_iff)
  have hi: "trunc_number r < 2147483648"
    using assms(2) by (auto simp add: trunc_number_def ceiling_less_iff floor_less_iff)
  from lo hi have "(trunc_number r + 2147483648) mod 4294967296 = trunc_number r + 2147483648"
    by simp
  then show ?thesis
    by (simp add: toInt32_Num trunc_number_def)
qed

lemma toInt32_int:
  "- 2147483648 \<le> k \<Longrightarrow> k < 2147483648 \<Longrightarrow> toInt32 (Num (of_int k)) = k"
  using toInt32_small [of "of_int k"] by simp

lemma toInt32_wrap:
  assumes "2147483648 \<le> r" and "r < 4294967296"
  shows "toInt32 (Num r) = \<lfloor>r\<rfloor> - 4294967296" and "toInt32 (Num r) < 0"
proof -
  have lo: "2147483648 \<le> \<lfloor>r\<rfloor>"
    using assms(1) by (simp add: le_floor_iff)
  have hi: "\<lfloor>r\<rfloor> < 4294967296"
    using assms(2) by (simp add: floor_less_iff)
  have t: "trunc_number r = \<lfloor>r\<rfloor>"
    using assms(1) by (simp add: trunc_number_def)
  have "(\<lfloor>r\<rfloor> + 2147483648) mod 4294967296 = \<lfloor>r\<rfloor> - 2147483648"
  proof -
    have "(\<lfloor>r\<rfloor> + 2147483648) mod 4294967296 = (\<lfloor>r\<rfloor> - 2147483648 + 4294967296) mod 4294967296"
      by (rule arg_cong [where f = "\<lambda>z. z mod 4294967296"]) simp
    also have "\<dots> = (\<lfloor>r\<rfloor> - 2147483648) mod 4294967296"
      by (simp only: mod_add_self2)
    also have "\<dots> = \<lfloor>r\<rfloor> - 2147483648"
      using lo hi by simp
    finally show ?thesis .
  qed
  then show "toInt32 (Num r) = \<lfloor>r\<rfloor> - 4294967296"
    by (simp add: toInt32_Num t)
  with hi show "toInt32 (Num r) < 0"
    by simp
qed

lemma childAt_int:
  "childAt s (Num (of_int k)) =
     (if 0 \<le> k \<and> k < childCount s then Some (children s ! nat k) else None)"
  by (simp add: childAt_def)

subsection \<open>Facts about \<open>insertChild\<close>\<close>

lemma nth_insert_mid: "j \<le> length xs \<Longrightarrow> (take j xs @ v # drop j xs) ! j = v"
  by (simp add: nth_append)

lemma length_insert_mid: "length (take j xs @ v # drop j xs) = Suc (length xs)"
  by (simp add: min_def)

lemma clamp_bounds: "j0 = max 0 (min a n) \<Longrightarrow> 0 \<le> n \<Longrightarrow> 0 \<le> j0 \<and> j0 \<le> (n::int)"
  by simp

lemma target_bounds:
  "j = (if j0 = n then j0 - 1 else j0) \<Longrightarrow> 0 \<le> j0 \<and> j0 \<le> n \<Longrightarrow> 0 < n \<Longrightarrow>
     0 \<le> j \<and> j < (n::int)"
  by auto

lemma arrays_insert_at:
  "0 \<le> j \<and> j \<le> int (length xs) \<Longrightarrow>
     arrays_insert xs j v = take (nat j) xs @ v # drop (nat j) xs"
  by (simp add: arrays_insert_def Let_def)

lemma insertChild_absent:
  assumes a: "child \<notin> set (children s)"
    and j: "j = max 0 (min (toInt32 index) (childCount s))"
  shows "insertChild index child s =
     (if parent s \<noteq> None
      then attachChild j child
             ((reparent child (map_option wid (parent s)) s)\<lparr>children :=
                arrays_insert (children s) j child\<rparr>)
      else (None, (reparent child (map_option wid (parent s)) s)\<lparr>children :=
                arrays_insert (children s) j child\<rparr>))"
proof -
  have i: "\<not> indexOf (children s) child \<noteq> - 1"
    using a by (simp add: indexOf_absent)
  show ?thesis
    unfolding j insertChild_def set_parent_container prod.case option.case Let_def
      reparent_simps parent_children_update childCount_def
    by (rule if_not_P [OF i])
qed

lemma insertChild_present:
  assumes mem: "child \<in> set (children s)"
    and i: "i = indexOf (children s) child"
    and j0: "j0 = max 0 (min (toInt32 index) (childCount s))"
    and j: "j = (if j0 = childCount s then j0 - 1 else j0)"
  shows "insertChild index child s =
      (if i = j then (None, reparent child (map_option wid (parent s)) s)
       else if parent s \<noteq> None
            then moveChild i j child
                   ((reparent child (map_option wid (parent s)) s)\<lparr>children :=
                      arrays_move (children s) i j\<rparr>)
            else (None, (reparent child (map_option wid (parent s)) s)\<lparr>children :=
                      arrays_move (children s) i j\<rparr>))"
proof -
  have ine: "indexOf (children s) child \<noteq> - 1"
    using mem by (simp add: indexOf_absent)
  show ?thesis
    unfolding i j j0 insertChild_def set_parent_container prod.case option.case Let_def
      reparent_simps parent_children_update childCount_def
    by (rule if_P [OF ine])
qed

lemma insertChild_new:
  assumes a: "child \<notin> set (children s)"
    and j: "j = max 0 (min (toInt32 index) (childCount s))"
  shows "children (snd (insertChild index child s)) =
           take (nat j) (children s) @ child # drop (nat j) (children s)"
    and "indexOf (children (snd (insertChild index child s))) child = j"
    and "childCount (snd (insertChild index child s)) = childCount s + 1"
    and "wparent (snd (insertChild index child s)) child = map_option wid (parent s)"
    and "hook_calls (trace (snd (insertChild index child s))) = hook_calls (trace s) @
           (if parent s \<noteq> None then [CallAttach j child] else [])"
proof -
  have n: "0 \<le> childCount s"
    by (simp add: childCount_def)
  from clamp_bounds [OF j n] have jb: "0 \<le> j \<and> j \<le> int (length (children s))"
    by (simp add: childCount_def)
  note ai = arrays_insert_at [OF jb, of child]
  note un = insertChild_absent [OF a j]
  show c: "children (snd (insertChild index child s)) =
           take (nat j) (children s) @ child # drop (nat j) (children s)"
    by (simp add: un ai)
  have "child \<notin> set (take (nat j) (children s))"
    using a by (auto dest: in_set_takeD)
  from indexOf_append_fresh [OF this] have
    "indexOf (take (nat j) (children s) @ child # drop (nat j) (children s)) child
      = int (length (take (nat j) (children s)))" .
  also have "\<dots> = j"
  proof -
    have "nat j \<le> length (children s)"
      using jb by linarith
    then have "length (take (nat j) (children s)) = nat j"
      by (simp add: min_absorb2)
    with jb show ?thesis
      by simp
  qed
  finally show "indexOf (children (snd (insertChild index child s))) child = j"
    by (simp only: c)
  show "childCount (snd (insertChild index child s)) = childCount s + 1"
    by (simp only: childCount_def c length_insert_mid)
  show "wparent (snd (insertChild index child s)) child = map_option wid (parent s)"
    by (simp add: un)
  show "hook_calls (trace (snd (insertChild index child s))) = hook_calls (trace s) @
           (if parent s \<noteq> None then [CallAttach j child] else [])"
    by (simp add: un)
qed

lemma insertChild_existing:
  assumes mem: "child \<in> set (children s)"
    and i: "i = indexOf (children s) child"
    and j0: "j0 = max 0 (min (toInt32 index) (childCount s))"
    and j: "j = (if j0 = childCount s then j0 - 1 else j0)"
  shows "0 \<le> j \<and> j < childCount s"
    and "i = j \<Longrightarrow> fst (insertChild index child s) = None \<and>
           children (snd (insertChild index child s)) = children s \<and>
           parent (snd (insertChild index child s)) = parent s \<and>
           hook_calls (trace (snd (insertChild index child s))) = hook_calls (trace s) \<and>
           lifecycle (trace (snd (insertChild index child s))) = lifecycle (trace s)"
    and "i \<noteq> j \<Longrightarrow>
           children (snd (insertChild index child s)) = arrays_move (children s) i j"
    and "i \<noteq> j \<Longrightarrow> children (snd (insertChild index child s)) =
           take (nat j) (remove1 child (children s)) @ child #
           drop (nat j) (remove1 child (children s))"
    and "i \<noteq> j \<Longrightarrow> hook_calls (trace (snd (insertChild index child s))) =
           hook_calls (trace s) @ (if parent s \<noteq> None then [CallMove i j child] else [])"
proof -
  have n: "0 < childCount s"
    using mem by (cases "children s") (simp_all add: childCount_def)
  then have n0: "0 \<le> childCount s"
    by simp
  note j0b = clamp_bounds [OF j0 n0]
  show jb: "0 \<le> j \<and> j < childCount s"
    by (rule target_bounds [OF j j0b n])
  note un = insertChild_present [OF mem i j0 j]
  show "i = j \<Longrightarrow> fst (insertChild index child s) = None \<and>
           children (snd (insertChild index child s)) = children s \<and>
           parent (snd (insertChild index child s)) = parent s \<and>
           hook_calls (trace (snd (insertChild index child s))) = hook_calls (trace s) \<and>
           lifecycle (trace (snd (insertChild index child s))) = lifecycle (trace s)"
    by (simp add: un)
  show mv: "i \<noteq> j \<Longrightarrow>
           children (snd (insertChild index child s)) = arrays_move (children s) i j"
    by (simp add: un)
  have jl: "0 \<le> j" "j < int (length (children s))"
    using jb by (simp_all add: childCount_def)
  from arrays_move_indexOf [OF mem jl]
  have "arrays_move (children s) i j =
      take (nat j) (remove1 child (children s)) @ child # drop (nat j) (remove1 child (children s))"
    by (simp only: i)
  with mv show "i \<noteq> j \<Longrightarrow> children (snd (insertChild index child s)) =
           take (nat j) (remove1 child (children s)) @ child #
           drop (nat j) (remove1 child (children s))"
    by simp
  show "i \<noteq> j \<Longrightarrow> hook_calls (trace (snd (insertChild index child s))) =
           hook_calls (trace s) @ (if parent s \<noteq> None then [CallMove i j child] else [])"
    by (simp add: un)
qed

lemma distinct_insertChild:
  assumes "distinct (children s)"
  shows "distinct (children (snd (insertChild index child s)))"
proof (cases "child \<in> set (children s)")
  case False
  define j where "j = max 0 (min (toInt32 index) (childCount s))"
  from insertChild_new(1) [OF False j_def] distinct_insert_mid [OF assms False, of "nat j"]
  show ?thesis
    by (simp only:)
next
  case True
  define i where "i = indexOf (children s) child"
  define j0 where "j0 = max 0 (min (toInt32 index) (childCount s))"
  define j where "j = (if j0 = childCount s then j0 - 1 else j0)"
  show ?thesis
  proof (cases "i = j")
    case same: True
    from insertChild_existing(2) [OF True i_def j0_def j_def same] assms show ?thesis
      by simp
  next
    case diff: False
    have "distinct (remove1 child (children s))" "child \<notin> set (remove1 child (children s))"
      using assms by simp_all
    from distinct_insert_mid [OF this, of "nat j"]
      insertChild_existing(4) [OF True i_def j0_def j_def diff]
    show ?thesis
      by (simp only:)
  qed
qed

lemma indexOf_zero: "indexOf xs v = 0 \<Longrightarrow> xs = v # remove1 v xs"
proof (cases xs)
  case Nil
  assume "indexOf xs v = 0"
  with Nil show ?thesis by simp
next
  case (Cons x ys)
  assume z: "indexOf xs v = 0"
  show ?thesis
  proof (cases "x = v")
    case True
    with Cons show ?thesis by simp
  next
    case False
    with z Cons indexOf_ge [of ys v] show ?thesis
      by (simp add: Let_def split: if_splits)
  qed
qed

lemma insertChild_front:
  assumes "toInt32 index \<le> 0"
  shows "children (snd (insertChild index child s)) = child # remove1 child (children s)"
proof (cases "child \<in> set (children s)")
  case False
  define j where "j = max 0 (min (toInt32 index) (childCount s))"
  have "j = 0"
    using assms by (simp add: j_def childCount_def)
  with insertChild_new(1) [OF False j_def] False show ?thesis
    by (simp add: remove1_idem)
next
  case True
  then have n: "0 < childCount s"
    by (cases "children s") (simp_all add: childCount_def)
  define i where "i = indexOf (children s) child"
  define j0 where "j0 = max 0 (min (toInt32 index) (childCount s))"
  define j where "j = (if j0 = childCount s then j0 - 1 else j0)"
  have "j0 = 0"
    using assms n by (simp add: j0_def)
  with n have jz: "j = 0"
    by (simp add: j_def)
  show ?thesis
  proof (cases "i = j")
    case same: True
    from insertChild_existing(2) [OF True i_def j0_def j_def same]
    have c: "children (snd (insertChild index child s)) = children s"
      by simp
    from same jz have "indexOf (children s) child = 0"
      by (simp add: i_def)
    from indexOf_zero [OF this] c show ?thesis
      by simp
  next
    case diff: False
    from insertChild_existing(4) [OF True i_def j0_def j_def diff] jz show ?thesis
      by simp
  qed
qed

subsection \<open>Facts about \<open>dispose\<close>\<close>

lemma widget_dispose_absent:
  assumes "c \<notin> set (children s)"
  shows "fst (widget_dispose c s) = None"
    and "children (snd (widget_dispose c s)) = children s"
    and "parent (snd (widget_dispose c s)) = parent s"
    and "dispose_calls (trace (snd (widget_dispose c s))) = dispose_calls (trace s) @ [c]"
    and "wdisposed (snd (widget_dispose c s)) c"
    and "wdisposed s d \<Longrightarrow> wdisposed (snd (widget_dispose c s)) d"
  using assms by (simp_all add: widget_dispose_def Let_def set_parent_absent)

lemma last_notin_butlast: "distinct xs \<Longrightarrow> xs \<noteq> [] \<Longrightarrow> last xs \<notin> set (butlast xs)"
proof -
  assume d: "distinct xs" and ne: "xs \<noteq> []"
  then have "distinct (butlast xs @ [last xs])" by simp
  then show ?thesis by (simp only: distinct_append) auto
qed

lemma dispose_loop_distinct:
  "distinct (children s) \<Longrightarrow>
     fst (dispose_loop s) = None \<and> children (snd (dispose_loop s)) = [] \<and>
     parent (snd (dispose_loop s)) = parent s \<and>
     dispose_calls (trace (snd (dispose_loop s))) = dispose_calls (trace s) @ rev (children s) \<and>
     (\<forall>c. c \<in> set (children s) \<or> wdisposed s c \<longrightarrow> wdisposed (snd (dispose_loop s)) c)"
proof (induction s rule: dispose_loop.induct)
  case (1 s)
  show ?case
  proof (cases "children s = []")
    case True
    then show ?thesis
      by (subst (1 2 3 4 5) dispose_loop.simps) simp
  next
    case False
    let ?c = "last (children s)"
    let ?s1 = "s\<lparr>children := butlast (children s)\<rparr>"
    have nin: "?c \<notin> set (children ?s1)"
      using "1.prems" False by (simp add: last_notin_butlast)
    obtain s2 where wd: "widget_dispose ?c ?s1 = (None, s2)"
      using widget_dispose_absent(1) [OF nin] by (cases "widget_dispose ?c ?s1") auto
    have c2: "children s2 = butlast (children s)"
      using widget_dispose_absent(2) [OF nin] wd by simp
    have p2: "parent s2 = parent s"
      using widget_dispose_absent(3) [OF nin] wd by simp
    have t2: "dispose_calls (trace s2) = dispose_calls (trace s) @ [?c]"
      using widget_dispose_absent(4) [OF nin] wd by simp
    have w2: "wdisposed s2 ?c"
      using widget_dispose_absent(5) [OF nin] wd by simp
    have w2': "\<And>d. wdisposed s d \<Longrightarrow> wdisposed s2 d"
      using widget_dispose_absent(6) [OF nin] wd by simp
    have d2: "distinct (children s2)"
      using "1.prems" c2 by (simp add: distinct_butlast)
    have pos: "0 < length (children s)"
      using False by simp
    note IH = "1.IH" [OF pos wd [symmetric] refl d2]
    have unfold: "dispose_loop s = dispose_loop s2"
      using False wd by (subst dispose_loop.simps) simp
    have r: "[?c] @ rev (butlast (children s)) = rev (children s)"
    proof -
      have "rev (children s) = rev (butlast (children s) @ [?c])"
        by (simp only: append_butlast_last_id [OF False])
      also have "\<dots> = [?c] @ rev (butlast (children s))"
        by simp
      finally show ?thesis by (rule sym)
    qed
    have "dispose_calls (trace (snd (dispose_loop s2))) = dispose_calls (trace s2) @ rev (children s2)"
      using IH by blast
    also have "\<dots> = dispose_calls (trace s) @ ([?c] @ rev (butlast (children s)))"
      by (simp only: t2 c2 append_assoc)
    also have "\<dots> = dispose_calls (trace s) @ rev (children s)"
      by (simp only: r)
    finally have dc: "dispose_calls (trace (snd (dispose_loop s2))) =
        dispose_calls (trace s) @ rev (children s)" .
    have mem: "\<And>c. c \<in> set (children s) \<Longrightarrow> c = ?c \<or> c \<in> set (butlast (children s))"
    proof -
      fix c assume "c \<in> set (children s)"
      then have "c \<in> set (butlast (children s) @ [?c])"
        by (simp only: append_butlast_last_id [OF False])
      then show "c = ?c \<or> c \<in> set (butlast (children s))"
        by auto
    qed
    have wl: "wdisposed (snd (dispose_loop s2)) ?c"
      using IH w2 by blast
    have wa: "\<forall>c. c \<in> set (children s) \<or> wdisposed s c \<longrightarrow> wdisposed (snd (dispose_loop s2)) c"
    proof (intro allI impI)
      fix c assume "c \<in> set (children s) \<or> wdisposed s c"
      then consider "c = ?c" | "c \<in> set (children s2)" | "wdisposed s2 c"
        using mem [of c] c2 w2' [of c] by auto
      then show "wdisposed (snd (dispose_loop s2)) c"
      proof cases
        case 1
        with wl show ?thesis by simp
      next
        case 2
        with IH show ?thesis by blast
      next
        case 3
        with IH show ?thesis by blast
      qed
    qed
    from IH p2 have "fst (dispose_loop s2) = None" "children (snd (dispose_loop s2)) = []"
      "parent (snd (dispose_loop s2)) = parent s"
      by simp_all
    with dc wa show ?thesis
      unfolding unfold by blast
  qed
qed

lemma dispose_distinct:
  assumes "distinct (children s)"
  shows "fst (dispose s) = None" and "children (snd (dispose s)) = []"
    and "parent (snd (dispose s)) = parent s"
    and "dispose_calls (trace (snd (dispose s))) = dispose_calls (trace s) @ rev (children s)"
    and "c \<in> set (children s) \<Longrightarrow> wdisposed (snd (dispose s)) c"
proof -
  obtain s1 where l: "dispose_loop s = (None, s1)"
    using dispose_loop_distinct [OF assms] by (cases "dispose_loop s") auto
  from dispose_loop_distinct [OF assms] l
  show "fst (dispose s) = None" and "children (snd (dispose s)) = []"
    and "parent (snd (dispose s)) = parent s"
    and "dispose_calls (trace (snd (dispose s))) = dispose_calls (trace s) @ rev (children s)"
    and "c \<in> set (children s) \<Longrightarrow> wdisposed (snd (dispose s)) c"
    by (simp_all add: dispose_def)
qed

subsection \<open>Facts about the runs\<close>

lemma children_initialize_from: "children (snd (initialize_from i s)) = children s"
proof (induction i s rule: initialize_from.induct)
  case (1 i s)
  show ?case
  proof (cases "i < childCount s")
    case False
    then show ?thesis by (subst initialize_from.simps) simp
  next
    case True
    show ?thesis
    proof (cases "childAt s (Num (of_int i))")
      case None
      with True show ?thesis by (subst initialize_from.simps) simp
    next
      case (Some child)
      let ?s1 = "reparent child (map_option wid (parent s)) s"
      have sp: "set_parent child (map_option wid (parent s)) s = (None, ?s1)"
        by (rule set_parent_container)
      obtain e s2 where at: "attachChild i child ?s1 = (e, s2)"
        by (cases "attachChild i child ?s1")
      have c2: "children s2 = children s"
        using children_attachChild [of i child ?s1] at by simp
      show ?thesis
      proof (cases e)
        case (Some err)
        with True \<open>childAt s (Num (of_int i)) = Some child\<close> sp at c2 show ?thesis
          by (subst initialize_from.simps) simp
      next
        case None
        note IH = "1.IH" [OF True \<open>childAt s (Num (of_int i)) = Some child\<close> sp [symmetric] refl _ refl]
        from None at have "(None, s2) = attachChild i child ?s1" by simp
        from IH [OF this] have "children (snd (initialize_from (i + 1) s2)) = children s2" .
        with None True \<open>childAt s (Num (of_int i)) = Some child\<close> sp at c2 show ?thesis
          by (subst initialize_from.simps) simp
      qed
    qed
  qed
qed

lemma children_install: "children (snd (install p s)) = children s"
  by (simp add: install_def initialize_def children_initialize_from)

lemma distinct_exec:
  assumes "distinct (children s)"
  shows "distinct (children (snd (exec op s)))"
proof (cases op)
  case (Insert index c)
  with assms show ?thesis by (simp add: distinct_insertChild)
next
  case (Add c)
  with assms show ?thesis by (simp add: addChild_def distinct_insertChild)
next
  case (Removed c)
  with assms show ?thesis by simp
next
  case (SetParent c v)
  with assms children_set_parent [of c v s] show ?thesis by auto
next
  case (Install p)
  with assms show ?thesis by (simp add: children_install)
next
  case Dispose
  with dispose_distinct(2) [OF assms] show ?thesis by simp
qed

lemma reachable_distinct: "reachable s \<Longrightarrow> distinct (children s)"
  by (induction rule: reachable.induct) (simp_all add: distinct_exec)

lemma count_list_distinct: "distinct xs \<Longrightarrow> x \<in> set xs \<Longrightarrow> count_list xs x = 1"
  by (induction xs) auto

subsection \<open>Facts about the state of a child\<close>

lemma attached_updates [simp]:
  "attached (s\<lparr>children := cs\<rparr>) c = attached s c"
  "attached (s\<lparr>trace := tr\<rparr>) c = attached s c"
  "attached (s\<lparr>wparent := wp\<rparr>) c = attached s c"
  "attached (s\<lparr>wdisposed := wd\<rparr>) c = attached s c"
  "attached (s\<lparr>disposed := b\<rparr>) c = attached s c"
  "attached (log e s) c = attached s c"
  "attached (sendMessage t m s) c = attached s c"
  "attached (reparent d v s) c = attached s c"
  by (simp_all add: attached_def)

lemma attached_cong: "parent s = parent t \<Longrightarrow> attached s c = attached t c"
  by (simp add: attached_def)

lemma status_attached: "status s c = PresentAttached \<longleftrightarrow> c \<in> set (children s) \<and> attached s c"
  by (simp add: status_def)

lemma status_not_detached:
  "status s c \<noteq> PresentDetached \<longleftrightarrow> (c \<in> set (children s) \<longrightarrow> attached s c)"
  by (simp add: status_def)

lemma set_insertBefore: "insertBefore ns new ref = Inr ms \<Longrightarrow> set ms = insert new (set ns)"
proof (cases ref)
  case None
  assume "insertBefore ns new ref = Inr ms"
  with None have "ms = remove1 new ns @ [new]"
    by (simp add: insertBefore_def)
  then show ?thesis
    using insert_set_remove1 [of new ns] by auto
next
  case (Some r)
  assume a: "insertBefore ns new ref = Inr ms"
  show ?thesis
  proof (cases "r = new")
    case True
    with a Some show ?thesis
      by (auto simp add: insertBefore_def split: if_splits)
  next
    case False
    let ?m = "remove1 new ns"
    from a Some False have ms: "ms = takeWhile (\<lambda>x. x \<noteq> r) ?m @ new # dropWhile (\<lambda>x. x \<noteq> r) ?m"
      by (simp add: insertBefore_def Let_def split: if_splits)
    have "set (takeWhile (\<lambda>x. x \<noteq> r) ?m) \<union> set (dropWhile (\<lambda>x. x \<noteq> r) ?m) = set ?m"
      by (metis set_append takeWhile_dropWhile_id)
    with ms have "set ms = insert new (set ?m)"
      by auto
    then show ?thesis
      by (simp add: insert_set_remove1)
  qed
qed

lemma attached_attachChild: "attached s c \<Longrightarrow> attached (snd (attachChild i d s)) c"
  by (auto simp add: attachChild_def attached_def Let_def dest: set_insertBefore
      split: option.splits sum.splits)

lemma attached_moveChild: "attached s c \<Longrightarrow> attached (snd (moveChild i j d s)) c"
  by (auto simp add: moveChild_def attached_def Let_def dest: set_insertBefore
      split: option.splits sum.splits)

lemma attached_detachChild: "attached s c \<Longrightarrow> c \<noteq> d \<Longrightarrow> attached (snd (detachChild i d s)) c"
  by (auto simp add: detachChild_def removeChild_def attached_def Let_def
      split: option.splits sum.splits if_splits)

lemma attached_onChildRemoved:
  "attached s c \<Longrightarrow> c \<noteq> d \<Longrightarrow> attached (snd (onChildRemoved d s)) c"
  by (simp add: onChildRemoved_def arrays_remove_def Let_def attached_detachChild)

lemma attached_insertChild:
  assumes "attached s c"
  shows "attached (snd (insertChild index d s)) c"
proof (cases "d \<in> set (children s)")
  case False
  define j where "j = max 0 (min (toInt32 index) (childCount s))"
  from assms show ?thesis
    by (simp add: insertChild_absent [OF False j_def] attached_attachChild)
next
  case True
  define i where "i = indexOf (children s) d"
  define j0 where "j0 = max 0 (min (toInt32 index) (childCount s))"
  define j where "j = (if j0 = childCount s then j0 - 1 else j0)"
  from assms show ?thesis
    by (simp add: insertChild_present [OF True i_def j0_def j_def] attached_moveChild)
qed

lemma not_detached_onChildRemoved:
  assumes "distinct (children s)" and "attached s c"
  shows "status (snd (onChildRemoved d s)) c \<noteq> PresentDetached"
proof (cases "c = d")
  case True
  with assms(1) show ?thesis
    by (simp add: status_def)
next
  case False
  with assms(2) show ?thesis
    by (simp add: status_not_detached attached_onChildRemoved)
qed

lemma onChildRemoved_after_send:
  "children (snd (onChildRemoved d (sendMessage q m s))) = children (snd (onChildRemoved d s))"
  "parent (snd (onChildRemoved d (sendMessage q m s))) = parent (snd (onChildRemoved d s))"
  by (simp_all add: onChildRemoved_def arrays_remove_def detachChild_def removeChild_def
      Let_def split: option.splits)

lemma set_parent_frame:
  "(children (snd (set_parent d v s)) = children s \<and>
    parent (snd (set_parent d v s)) = parent s) \<or>
   (children (snd (set_parent d v s)) = children (snd (onChildRemoved d s)) \<and>
    parent (snd (set_parent d v s)) = parent (snd (onChildRemoved d s)))"
proof (cases "wparent s d = v")
  case True
  then show ?thesis by (simp add: set_parent_def)
next
  case False
  show ?thesis
  proof (cases "wparent s d")
    case None
    with False show ?thesis
      by (cases v) (simp_all add: set_parent_def)
  next
    case (Some q)
    let ?s1 = "sendMessage q (ChildRemoved d) s"
    obtain e s2 where r: "processParentMessage q (ChildRemoved d) ?s1 = (e, s2)"
      by (cases "processParentMessage q (ChildRemoved d) ?s1")
    have fin: "children (snd (set_parent d v s)) = children s2 \<and>
               parent (snd (set_parent d v s)) = parent s2"
      using False Some r by (cases e; cases v) (simp_all add: set_parent_def)
    have "(children s2 = children s \<and> parent s2 = parent s) \<or>
          (children s2 = children (snd (onChildRemoved d s)) \<and>
           parent s2 = parent (snd (onChildRemoved d s)))"
    proof (cases "\<exists>p. parent s = Some p \<and> wid p = q")
      case True
      then have "processParentMessage q (ChildRemoved d) ?s1 = onChildRemoved d ?s1"
        by (auto simp add: processParentMessage_def)
      with r have "s2 = snd (onChildRemoved d ?s1)" by simp
      then show ?thesis by (simp add: onChildRemoved_after_send)
    next
      case False
      then have "processParentMessage q (ChildRemoved d) ?s1 = (None, ?s1)"
        by (auto simp add: processParentMessage_def split: option.splits)
      with r show ?thesis by auto
    qed
    with fin show ?thesis by simp
  qed
qed

lemma status_cong:
  "children s = children t \<Longrightarrow> parent s = parent t \<Longrightarrow> status s c = status t c"
  by (simp add: status_def attached_def)

lemma not_detached_exec:
  assumes d: "distinct (children s)" and a: "status s c = PresentAttached"
  shows "status (snd (exec op s)) c \<noteq> PresentDetached"
proof -
  from a have at: "attached s c" and mem: "c \<in> set (children s)"
    by (simp_all add: status_attached)
  show ?thesis
  proof (cases op)
    case (Insert index x)
    with at show ?thesis
      by (simp add: status_not_detached attached_insertChild)
  next
    case (Add x)
    with at show ?thesis
      by (simp add: status_not_detached addChild_def attached_insertChild)
  next
    case (Removed x)
    with d at show ?thesis
      by (simp add: not_detached_onChildRemoved)
  next
    case (SetParent x v)
    from set_parent_frame [of x v s]
    have "status (snd (set_parent x v s)) c = status s c \<or>
          status (snd (set_parent x v s)) c = status (snd (onChildRemoved x s)) c"
      by (auto intro: status_cong)
    with a not_detached_onChildRemoved [OF d at, of x] SetParent show ?thesis
      by auto
  next
    case (Install p)
    from at have "parent s \<noteq> None"
      by (cases "parent s") (simp_all add: attached_def)
    with Install a show ?thesis
      by (simp add: install_def)
  next
    case Dispose
    with dispose_distinct(2) [OF d] show ?thesis
      by (simp add: status_def)
  qed
qed

subsection \<open>Where \<open>detachChild\<close> is called\<close>

text \<open>
  Every operation calls \<open>detachChild\<close> only for a child that is out of the sequence when
  the operation ends.
\<close>

lemma detach_calls_append [simp]: "detach_calls (xs @ ys) = detach_calls xs @ detach_calls ys"
  by (induction xs rule: detach_calls.induct) simp_all

lemma detach_calls_hook_calls: "detach_calls (hook_calls es) = detach_calls es"
  by (induction es rule: hook_calls.induct) simp_all

lemma detach_calls_by_hooks:
  "hook_calls (trace t) = hook_calls (trace s) @ hs \<Longrightarrow>
     detach_calls (trace t) = detach_calls (trace s) @ detach_calls hs"
proof -
  assume h: "hook_calls (trace t) = hook_calls (trace s) @ hs"
  have "detach_calls (trace t) = detach_calls (hook_calls (trace t))"
    by (simp only: detach_calls_hook_calls)
  also have "\<dots> = detach_calls (hook_calls (trace s)) @ detach_calls hs"
    by (simp only: h detach_calls_append)
  finally show ?thesis
    by (simp only: detach_calls_hook_calls)
qed

lemma hook_calls_insertChild:
  "\<exists>hs. hook_calls (trace (snd (insertChild index c s))) = hook_calls (trace s) @ hs \<and>
        detach_calls hs = []"
proof (cases "c \<in> set (children s)")
  case False
  define j where "j = max 0 (min (toInt32 index) (childCount s))"
  from insertChild_new(5) [OF False j_def] show ?thesis
    by (cases "parent s = None") auto
next
  case True
  define i where "i = indexOf (children s) c"
  define j0 where "j0 = max 0 (min (toInt32 index) (childCount s))"
  define j where "j = (if j0 = childCount s then j0 - 1 else j0)"
  show ?thesis
  proof (cases "i = j")
    case same: True
    from insertChild_existing(2) [OF True i_def j0_def j_def same] show ?thesis
      by auto
  next
    case diff: False
    from insertChild_existing(5) [OF True i_def j0_def j_def diff] show ?thesis
      by (cases "parent s = None") auto
  qed
qed

lemma hook_calls_onChildRemoved:
  "hook_calls (trace (snd (onChildRemoved d s))) = hook_calls (trace s) @
     (if d \<in> set (children s) then [CallDetach (indexOf (children s) d) d] else [])"
  by (simp add: onChildRemoved_def arrays_remove_def Let_def indexOf_absent)

lemma set_parent_hooks:
  "(hook_calls (trace (snd (set_parent d v s))) = hook_calls (trace s) \<and>
    children (snd (set_parent d v s)) = children s) \<or>
   (hook_calls (trace (snd (set_parent d v s))) =
      hook_calls (trace s) @ [CallDetach (indexOf (children s) d) d] \<and>
    children (snd (set_parent d v s)) = remove1 d (children s))"
proof (cases "wparent s d = v")
  case True
  then show ?thesis by (simp add: set_parent_def)
next
  case False
  show ?thesis
  proof (cases "wparent s d")
    case None
    with False show ?thesis
      by (cases v) (simp_all add: set_parent_def)
  next
    case (Some q)
    let ?s1 = "sendMessage q (ChildRemoved d) s"
    obtain e s2 where r: "processParentMessage q (ChildRemoved d) ?s1 = (e, s2)"
      by (cases "processParentMessage q (ChildRemoved d) ?s1")
    have fin: "hook_calls (trace (snd (set_parent d v s))) = hook_calls (trace s2) \<and>
               children (snd (set_parent d v s)) = children s2"
      using False Some r by (cases e; cases v) (simp_all add: set_parent_def)
    have "(hook_calls (trace s2) = hook_calls (trace s) \<and> children s2 = children s) \<or>
          (hook_calls (trace s2) = hook_calls (trace s) @ [CallDetach (indexOf (children s) d) d] \<and>
           children s2 = remove1 d (children s))"
    proof (cases "\<exists>p. parent s = Some p \<and> wid p = q")
      case True
      then have "processParentMessage q (ChildRemoved d) ?s1 = onChildRemoved d ?s1"
        by (auto simp add: processParentMessage_def)
      with r have s2: "s2 = snd (onChildRemoved d ?s1)" by simp
      show ?thesis
      proof (cases "d \<in> set (children s)")
        case True
        then show ?thesis
          by (simp add: s2 hook_calls_onChildRemoved)
      next
        case False
        then show ?thesis
          by (simp add: s2 hook_calls_onChildRemoved remove1_idem)
      qed
    next
      case False
      then have "processParentMessage q (ChildRemoved d) ?s1 = (None, ?s1)"
        by (auto simp add: processParentMessage_def split: option.splits)
      with r show ?thesis by auto
    qed
    with fin show ?thesis by simp
  qed
qed

lemma hook_calls_initialize_from:
  "\<exists>hs. hook_calls (trace (snd (initialize_from i s))) = hook_calls (trace s) @ hs \<and>
        detach_calls hs = []"
proof (induction i s rule: initialize_from.induct)
  case (1 i s)
  show ?case
  proof (cases "i < childCount s")
    case False
    then show ?thesis by (subst initialize_from.simps) simp
  next
    case True
    show ?thesis
    proof (cases "childAt s (Num (of_int i))")
      case None
      with True show ?thesis by (subst initialize_from.simps) simp
    next
      case (Some child)
      let ?s1 = "reparent child (map_option wid (parent s)) s"
      have sp: "set_parent child (map_option wid (parent s)) s = (None, ?s1)"
        by (rule set_parent_container)
      obtain e s2 where at: "attachChild i child ?s1 = (e, s2)"
        by (cases "attachChild i child ?s1")
      have h2: "hook_calls (trace s2) = hook_calls (trace s) @ [CallAttach i child]"
        using attachChild_fields(4) [of i child ?s1] at by simp
      show ?thesis
      proof (cases e)
        case (Some err)
        have "initialize_from i s = (Some err, s2)"
          using Some True \<open>childAt s (Num (of_int i)) = Some child\<close> sp at
          by (subst initialize_from.simps) simp
        with h2 show ?thesis by simp
      next
        case None
        note IH = "1.IH" [OF True \<open>childAt s (Num (of_int i)) = Some child\<close> sp [symmetric] refl _ refl]
        from None at have "(None, s2) = attachChild i child ?s1" by simp
        from IH [OF this] obtain hs where
          hs: "hook_calls (trace (snd (initialize_from (i + 1) s2))) = hook_calls (trace s2) @ hs"
            "detach_calls hs = []"
          by blast
        have "initialize_from i s = initialize_from (i + 1) s2"
          using None True \<open>childAt s (Num (of_int i)) = Some child\<close> sp at
          by (subst initialize_from.simps) simp
        with hs h2 have
          "hook_calls (trace (snd (initialize_from i s))) =
             hook_calls (trace s) @ (CallAttach i child # hs) \<and>
           detach_calls (CallAttach i child # hs) = []"
          by simp
        then show ?thesis by blast
      qed
    qed
  qed
qed

lemma hook_calls_widget_dispose_absent:
  "c \<notin> set (children s) \<Longrightarrow> hook_calls (trace (snd (widget_dispose c s))) = hook_calls (trace s)"
  by (simp add: widget_dispose_def Let_def set_parent_absent)

lemma hook_calls_dispose_loop:
  "distinct (children s) \<Longrightarrow> hook_calls (trace (snd (dispose_loop s))) = hook_calls (trace s)"
proof (induction s rule: dispose_loop.induct)
  case (1 s)
  show ?case
  proof (cases "children s = []")
    case True
    then show ?thesis
      by (subst dispose_loop.simps) simp
  next
    case False
    let ?c = "last (children s)"
    let ?s1 = "s\<lparr>children := butlast (children s)\<rparr>"
    have nin: "?c \<notin> set (children ?s1)"
      using "1.prems" False by (simp add: last_notin_butlast)
    obtain s2 where wd: "widget_dispose ?c ?s1 = (None, s2)"
      using widget_dispose_absent(1) [OF nin] by (cases "widget_dispose ?c ?s1") auto
    have c2: "children s2 = butlast (children s)"
      using widget_dispose_absent(2) [OF nin] wd by simp
    have h2: "hook_calls (trace s2) = hook_calls (trace s)"
      using hook_calls_widget_dispose_absent [OF nin] wd by simp
    have d2: "distinct (children s2)"
      using "1.prems" c2 by (simp add: distinct_butlast)
    have pos: "0 < length (children s)"
      using False by simp
    note IH = "1.IH" [OF pos wd [symmetric] refl d2]
    have unfold: "dispose_loop s = dispose_loop s2"
      using False wd by (subst dispose_loop.simps) simp
    from IH h2 show ?thesis
      by (simp only: unfold)
  qed
qed

lemma hook_calls_dispose:
  assumes "distinct (children s)"
  shows "hook_calls (trace (snd (dispose s))) = hook_calls (trace s)"
proof -
  obtain s1 where l: "dispose_loop s = (None, s1)"
    using dispose_loop_distinct [OF assms] by (cases "dispose_loop s") auto
  with hook_calls_dispose_loop [OF assms] show ?thesis
    by (simp add: dispose_def)
qed

lemma detach_only_on_removal:
  assumes d: "distinct (children s)"
  shows "\<exists>ds. detach_calls (trace (snd (exec op s))) = detach_calls (trace s) @ ds \<and>
              set ds \<inter> set (children (snd (exec op s))) = {}"
proof (cases op)
  case (Insert index x)
  from hook_calls_insertChild [of index x s] obtain hs where
    "hook_calls (trace (snd (insertChild index x s))) = hook_calls (trace s) @ hs"
    "detach_calls hs = []"
    by blast
  with detach_calls_by_hooks [of "snd (insertChild index x s)" s hs] Insert show ?thesis
    by simp
next
  case (Add x)
  from hook_calls_insertChild [of "Num (of_int (childCount s))" x s] obtain hs where
    "hook_calls (trace (snd (addChild x s))) = hook_calls (trace s) @ hs"
    "detach_calls hs = []"
    unfolding addChild_def by blast
  with detach_calls_by_hooks [of "snd (addChild x s)" s hs] Add show ?thesis
    by simp
next
  case (Removed x)
  from detach_calls_by_hooks [OF hook_calls_onChildRemoved [of x s]] d Removed show ?thesis
    by simp
next
  case (SetParent x v)
  from set_parent_hooks [of x v s] show ?thesis
  proof
    assume a: "hook_calls (trace (snd (set_parent x v s))) = hook_calls (trace s) \<and>
      children (snd (set_parent x v s)) = children s"
    then have "hook_calls (trace (snd (set_parent x v s))) = hook_calls (trace s) @ []"
      by simp
    from detach_calls_by_hooks [OF this] SetParent show ?thesis
      by simp
  next
    assume a: "hook_calls (trace (snd (set_parent x v s))) =
        hook_calls (trace s) @ [CallDetach (indexOf (children s) x) x] \<and>
      children (snd (set_parent x v s)) = remove1 x (children s)"
    then have h: "hook_calls (trace (snd (set_parent x v s))) =
        hook_calls (trace s) @ [CallDetach (indexOf (children s) x) x]"
      by simp
    from detach_calls_by_hooks [OF h] a d SetParent show ?thesis
      by simp
  qed
next
  case (Install p)
  show ?thesis
  proof (cases "parent s = None")
    case False
    with Install show ?thesis by (simp add: install_def)
  next
    case True
    from hook_calls_initialize_from [of 0 "s\<lparr>parent := Some p\<rparr>"] obtain hs where
      hs: "hook_calls (trace (snd (initialize_from 0 (s\<lparr>parent := Some p\<rparr>)))) =
        hook_calls (trace s) @ hs" "detach_calls hs = []"
      by auto
    have "snd (exec op s) = snd (initialize_from 0 (s\<lparr>parent := Some p\<rparr>))"
      using Install True by (simp add: install_def initialize_def)
    with detach_calls_by_hooks [OF hs(1)] hs(2) show ?thesis
      by simp
  qed
next
  case Dispose
  from hook_calls_dispose [OF d] have "hook_calls (trace (snd (dispose s))) = hook_calls (trace s) @ []"
    by simp
  from detach_calls_by_hooks [OF this] Dispose show ?thesis
    by simp
qed

subsection \<open>The order of the nodes\<close>

lemma takeWhile_neq_nth:
  "distinct xs \<Longrightarrow> j < length xs \<Longrightarrow> takeWhile (\<lambda>x. x \<noteq> xs ! j) xs = take j xs"
proof (induction xs arbitrary: j)
  case Nil
  then show ?case by simp
next
  case (Cons x xs)
  show ?case
  proof (cases j)
    case 0
    then show ?thesis by simp
  next
    case (Suc k)
    with Cons.prems have "xs ! k \<in> set xs" by simp
    with Cons.prems have "x \<noteq> xs ! k" by auto
    with Cons Suc show ?thesis by simp
  qed
qed

lemma dropWhile_neq_nth:
  "distinct xs \<Longrightarrow> j < length xs \<Longrightarrow> dropWhile (\<lambda>x. x \<noteq> xs ! j) xs = drop j xs"
proof (induction xs arbitrary: j)
  case Nil
  then show ?case by simp
next
  case (Cons x xs)
  show ?case
  proof (cases j)
    case 0
    then show ?thesis by simp
  next
    case (Suc k)
    with Cons.prems have "xs ! k \<in> set xs" by simp
    with Cons.prems have "x \<noteq> xs ! k" by auto
    with Cons Suc show ?thesis by simp
  qed
qed

lemma insertBefore_place:
  assumes d: "distinct ns" and j: "j \<le> length (remove1 new ns)"
  shows "insertBefore ns new
           (if j < length (remove1 new ns) then Some (remove1 new ns ! j) else None)
         = Inr (take j (remove1 new ns) @ new # drop j (remove1 new ns))"
proof (cases "j < length (remove1 new ns)")
  case False
  with j show ?thesis
    by (simp add: insertBefore_def)
next
  case True
  let ?r = "remove1 new ns"
  have dr: "distinct ?r" using d by simp
  have m: "?r ! j \<in> set ?r" using True by simp
  then have m1: "?r ! j \<in> set ns" by (rule set_mp [OF set_remove1_subset])
  have "new \<notin> set ?r" using d by simp
  with m have ne: "?r ! j \<noteq> new" by auto
  show ?thesis
    using True m1 ne takeWhile_neq_nth [OF dr True] dropWhile_neq_nth [OF dr True]
    by (simp add: insertBefore_def Let_def)
qed

lemma nth_after_insert_mid: "j < length xs \<Longrightarrow> (take j xs @ v # drop j xs) ! Suc j = xs ! j"
  by (simp add: nth_append)

lemma childAt_after_insert_mid:
  assumes "children s = take j xs @ v # drop j xs" and "j \<le> length xs"
  shows "childAt s (Num (of_int (int j + 1))) = (if j < length xs then Some (xs ! j) else None)"
proof -
  have l: "length (children s) = Suc (length xs)"
    using assms(1) by (simp only: length_insert_mid)
  have n: "nat (int j + 1) = Suc j" by simp
  show ?thesis
    using assms(2) l nth_after_insert_mid [of j xs v] assms(1)
    by (simp only: childAt_int childCount_def n) auto
qed

lemma attachChild_in_order:
  assumes p: "parent s = Some p" and d: "distinct (node p)" and c: "c \<notin> set (node p)"
    and k: "k \<le> length (node p)"
    and cs: "children s = take k (node p) @ c # drop k (node p)"
  shows "fst (attachChild (int k) c s) = None \<and>
         map_option node (parent (snd (attachChild (int k) c s))) = Some (children s)"
proof -
  have r: "remove1 c (node p) = node p"
    using c by (simp add: remove1_idem)
  have cl: "children (log (CallAttach (int k) c) s) = take k (node p) @ c # drop k (node p)"
    using cs by simp
  have ref: "childAt (log (CallAttach (int k) c) s) (Num (of_int (int k + 1))) =
      (if k < length (node p) then Some (node p ! k) else None)"
    using cl k by (rule childAt_after_insert_mid)
  have k': "k \<le> length (remove1 c (node p))"
    using k by (simp only: r)
  from insertBefore_place [OF d k']
  have ib: "insertBefore (node p) c (if k < length (node p) then Some (node p ! k) else None) =
      Inr (take k (node p) @ c # drop k (node p))"
    by (simp only: r)
  show ?thesis
    using p cs by (simp add: attachChild_def Let_def ref ib del: of_int_add)
qed

lemma moveChild_in_order:
  assumes p: "parent s = Some p" and d: "distinct (node p)"
    and k: "k \<le> length (remove1 c (node p))"
    and cs: "children s = take k (remove1 c (node p)) @ c # drop k (remove1 c (node p))"
  shows "fst (moveChild i (int k) c s) = None \<and>
         map_option node (parent (snd (moveChild i (int k) c s))) = Some (children s)"
proof -
  let ?r = "remove1 c (node p)"
  have cl: "children (log (CallMove i (int k) c) s) = take k ?r @ c # drop k ?r"
    using cs by simp
  have ref: "childAt (log (CallMove i (int k) c) s) (Num (of_int (int k + 1))) =
      (if k < length ?r then Some (?r ! k) else None)"
    using cl k by (rule childAt_after_insert_mid)
  note ib = insertBefore_place [OF d k]
  show ?thesis
    using p cs by (simp add: moveChild_def Let_def ref ib del: of_int_add)
qed

text \<open>
  An installed layout whose nodes are in the order of the sequence stays so under
  \<open>insertChild\<close> and under the \<open>child-removed\<close> notification, and neither raises.
\<close>

lemma order_kept_by_move:
  assumes p: "parent s1 = Some p" and o: "node p = cs" and d: "distinct cs"
    and mem: "c \<in> set cs" and jb: "0 \<le> j \<and> j < int (length cs)" and ne: "indexOf cs c \<noteq> j"
  shows "fst (moveChild (indexOf cs c) j c (s1\<lparr>children := arrays_move cs (indexOf cs c) j\<rparr>)) = None \<and>
         map_option node (parent (snd (moveChild (indexOf cs c) j c
            (s1\<lparr>children := arrays_move cs (indexOf cs c) j\<rparr>)))) =
         Some (arrays_move cs (indexOf cs c) j)"
proof -
  define k where "k = nat j"
  have kj: "j = int k" using jb by (simp add: k_def)
  have lr: "length (remove1 c cs) = length cs - 1"
    using mem by (simp add: length_remove1)
  have k: "k \<le> length (remove1 c (node p))"
    using jb lr unfolding k_def o by linarith
  have mv: "arrays_move cs (indexOf cs c) j = take k (remove1 c cs) @ c # drop k (remove1 c cs)"
    using arrays_move_indexOf [OF mem, of j] jb by (simp add: k_def)
  define s2 where "s2 = s1\<lparr>children := arrays_move cs (indexOf cs c) j\<rparr>"
  have p2: "parent s2 = Some p" by (simp add: s2_def p)
  have c2: "children s2 = take k (remove1 c (node p)) @ c # drop k (remove1 c (node p))"
    by (simp add: s2_def mv o)
  from d o have dn: "distinct (node p)" by simp
  from moveChild_in_order [OF p2 dn k c2, of "indexOf cs c"] c2 mv o
  have "fst (moveChild (indexOf cs c) (int k) c s2) = None \<and>
        map_option node (parent (snd (moveChild (indexOf cs c) (int k) c s2))) =
          Some (arrays_move cs (indexOf cs c) j)"
    by simp
  then show ?thesis
    unfolding s2_def kj [symmetric] .
qed

lemma order_kept_by_insertChild:
  assumes p: "parent s = Some p" and o: "node p = children s" and d: "distinct (children s)"
  shows "fst (insertChild index c s) = None \<and>
         map_option node (parent (snd (insertChild index c s))) =
           Some (children (snd (insertChild index c s)))"
proof (cases "c \<in> set (children s)")
  case False
  define j where "j = max 0 (min (toInt32 index) (childCount s))"
  have n: "0 \<le> childCount s"
    by (simp add: childCount_def)
  from clamp_bounds [OF j_def n] have jb: "0 \<le> j \<and> j \<le> int (length (children s))"
    by (simp add: childCount_def)
  define k where "k = nat j"
  have kj: "int k = j" using jb by (simp add: k_def)
  have k: "k \<le> length (node p)" using jb unfolding k_def o by linarith
  define s2 where "s2 = (reparent c (map_option wid (parent s)) s)\<lparr>children :=
      take k (children s) @ c # drop k (children s)\<rparr>"
  have ai: "arrays_insert (children s) j c = take k (children s) @ c # drop k (children s)"
    unfolding k_def by (rule arrays_insert_at [OF jb])
  have pn: "parent s \<noteq> None" using p by simp
  from trans [OF insertChild_absent [OF False j_def] if_P [OF pn]]
  have un: "insertChild index c s = attachChild (int k) c s2"
    by (simp only: ai s2_def kj)
  have p2: "parent s2 = Some p" by (simp add: s2_def p)
  have c2: "children s2 = take k (node p) @ c # drop k (node p)"
    by (simp add: s2_def o)
  from False o have cn: "c \<notin> set (node p)" by simp
  from d o have dn: "distinct (node p)" by simp
  from attachChild_in_order [OF p2 dn cn k c2] show ?thesis
    by (simp add: un)
next
  case True
  define i where "i = indexOf (children s) c"
  define j0 where "j0 = max 0 (min (toInt32 index) (childCount s))"
  define j where "j = (if j0 = childCount s then j0 - 1 else j0)"
  note un = insertChild_present [OF True i_def j0_def j_def]
  have jb: "0 \<le> j \<and> j < int (length (children s))"
    using insertChild_existing(1) [OF True i_def j0_def j_def] by (simp add: childCount_def)
  have p1: "parent (reparent c (map_option wid (parent s)) s) = Some p" by (simp add: p)
  show ?thesis
  proof (cases "i = j")
    case same: True
    have "insertChild index c s = (None, reparent c (map_option wid (parent s)) s)"
      by (rule trans [OF un if_P [OF same]])
    with p o show ?thesis by simp
  next
    case diff: False
    have pn: "parent s \<noteq> None" using p by simp
    have e: "insertChild index c s =
        moveChild i j c ((reparent c (map_option wid (parent s)) s)\<lparr>children :=
          arrays_move (children s) i j\<rparr>)"
      by (rule trans [OF trans [OF un if_not_P [OF diff]] if_P [OF pn]])
    have ne: "indexOf (children s) c \<noteq> j"
      using diff by (simp add: i_def)
    from order_kept_by_move [OF p1 o d True jb ne]
    have "fst (moveChild i j c ((reparent c (map_option wid (parent s)) s)\<lparr>children :=
              arrays_move (children s) i j\<rparr>)) = None \<and>
          map_option node (parent (snd (moveChild i j c
            ((reparent c (map_option wid (parent s)) s)\<lparr>children :=
              arrays_move (children s) i j\<rparr>)))) = Some (arrays_move (children s) i j)"
      by (simp only: i_def)
    then show ?thesis
      by (simp add: e)
  qed
qed

lemma order_kept_by_onChildRemoved:
  assumes p: "parent s = Some p" and o: "node p = children s"
  shows "fst (onChildRemoved c s) = None \<and>
         map_option node (parent (snd (onChildRemoved c s))) =
           Some (children (snd (onChildRemoved c s)))"
proof (cases "c \<in> set (children s)")
  case False
  with p o show ?thesis by (simp add: onChildRemoved_absent)
next
  case True
  then have "indexOf (children s) c \<noteq> - 1" by (simp add: indexOf_absent)
  with True p o show ?thesis
    by (simp add: onChildRemoved_def arrays_remove_def detachChild_def removeChild_def Let_def)
qed

text \<open>
  Appending the children 11, 12 and 10 to a layout that is installed already puts their
  nodes into the container in that order.
\<close>

lemma append_to_installed_layout:
  "map_option node (parent (snd (addChild 10 (snd (addChild 12 (snd (addChild 11
     (snd (install (panel True) new_layout))))))))) = Some [11, 12, 10]"
  by code_simp

subsection \<open>The messages of the hooks\<close>

text \<open>
  A call of \<open>attachChild\<close> or \<open>moveChild\<close> that returns, and every call of \<open>detachChild\<close>,
  sends the messages of the notification contract: \<open>after-attach\<close>, \<open>before-detach\<close>, or
  \<open>before-detach\<close> and then \<open>after-attach\<close>, to the child only, and only when the container
  is live.
\<close>

lemma lifecycle_contract:
  "(fst (attachChild i c s) = None \<longrightarrow>
      messages (trace (snd (attachChild i c s))) =
        messages (trace s) @ (if live s then [(c, AfterAttach)] else [])) \<and>
   messages (trace (snd (detachChild i c s))) =
     messages (trace s) @ (if live s then [(c, BeforeDetach)] else []) \<and>
   (fst (moveChild i j c s) = None \<longrightarrow>
      messages (trace (snd (moveChild i j c s))) =
        messages (trace s) @ (if live s then [(c, BeforeDetach), (c, AfterAttach)] else []))"
  by (simp add: attachChild_def detachChild_def moveChild_def live_def Let_def
      split: option.splits sum.splits)

section \<open>The claims\<close>

text \<open>
  C1, as amended. For a child that is in the sequence at position \<open>i\<close>, \<open>insertChild\<close>
  converts the index with \<open>index | 0\<close>, clamps the result into \<open>[0, count]\<close> and takes one
  off when it equals the count. If the target \<open>j\<close> is \<open>i\<close>, nothing happens: the sequence
  and the container's node stay, no hook is called and no \<open>after-attach\<close> or
  \<open>before-detach\<close> is sent. Otherwise the child moves from \<open>i\<close> to \<open>j\<close>, the other children
  keeping their order, and \<open>moveChild(i, j, child)\<close>, and no other hook, is called exactly
  when the layout has a parent.
\<close>

theorem reinsert_existing_child:
  fixes s :: layout and child :: widget and index :: number
  assumes mem: "child \<in> set (children s)"
  defines "n \<equiv> childCount s"
  defines "i \<equiv> indexOf (children s) child"
  defines "j0 \<equiv> max 0 (min (toInt32 index) n)"
  defines "j \<equiv> (if j0 = n then j0 - 1 else j0)"
  defines "s' \<equiv> snd (insertChild index child s)"
  shows "0 \<le> j \<and> j < n \<and>
    (i = j \<longrightarrow>
       fst (insertChild index child s) = None \<and> children s' = children s \<and>
       parent s' = parent s \<and> hook_calls (trace s') = hook_calls (trace s) \<and>
       lifecycle (trace s') = lifecycle (trace s)) \<and>
    (i \<noteq> j \<longrightarrow>
       children s' = arrays_move (children s) i j \<and>
       children s' = take (nat j) (remove1 child (children s)) @ child #
                     drop (nat j) (remove1 child (children s)) \<and>
       children s' ! nat j = child \<and>
       length (children s') = length (children s) \<and>
       (distinct (children s) \<longrightarrow> indexOf (children s') child = j) \<and>
       hook_calls (trace s') =
         hook_calls (trace s) @ (if parent s \<noteq> None then [CallMove i j child] else []))"
proof -
  have ie: "i = indexOf (children s) child"
    by (simp only: i_def)
  have j0e: "j0 = max 0 (min (toInt32 index) (childCount s))"
    by (simp only: j0_def n_def)
  have je: "j = (if j0 = childCount s then j0 - 1 else j0)"
    by (simp only: j_def n_def)
  note ex = insertChild_existing [OF mem ie j0e je]
  have jb: "0 \<le> j \<and> j < n"
    unfolding n_def by (rule ex(1))
  have ex2: "i = j \<Longrightarrow> fst (insertChild index child s) = None \<and> children s' = children s \<and>
           parent s' = parent s \<and> hook_calls (trace s') = hook_calls (trace s) \<and>
           lifecycle (trace s') = lifecycle (trace s)"
    unfolding s'_def by (rule ex(2))
  have ex3: "i \<noteq> j \<Longrightarrow> children s' = arrays_move (children s) i j"
    unfolding s'_def by (rule ex(3))
  have ex4: "i \<noteq> j \<Longrightarrow> children s' =
           take (nat j) (remove1 child (children s)) @ child # drop (nat j) (remove1 child (children s))"
    unfolding s'_def by (rule ex(4))
  have ex5: "i \<noteq> j \<Longrightarrow> hook_calls (trace s') = hook_calls (trace s) @
           (if parent s \<noteq> None then [CallMove i j child] else [])"
    unfolding s'_def by (rule ex(5))
  have len: "length (remove1 child (children s)) = length (children s) - 1"
    using mem by (simp add: length_remove1)
  have jl: "nat j \<le> length (remove1 child (children s))"
    using jb len unfolding n_def childCount_def by linarith
  have pos: "0 < length (children s)"
    using mem by (cases "children s") simp_all
  {
    assume d: "i \<noteq> j"
    let ?r = "remove1 child (children s)"
    have c: "children s' = take (nat j) ?r @ child # drop (nat j) ?r"
      using ex4 d by simp
    have nth: "children s' ! nat j = child"
      using nth_insert_mid [OF jl, of child] c by simp
    have "length (children s') = Suc (length ?r)"
      by (simp only: c length_insert_mid)
    with len pos have l: "length (children s') = length (children s)"
      by linarith
    have ix: "distinct (children s) \<Longrightarrow> indexOf (children s') child = j"
    proof -
      assume "distinct (children s)"
      then have "child \<notin> set (take (nat j) ?r)"
        by (auto dest: in_set_takeD)
      from indexOf_append_fresh [OF this, of "drop (nat j) ?r"] c jl jb show ?thesis
        by simp
    qed
    from c nth l ix ex3 ex5 d
    have "children s' = arrays_move (children s) i j \<and>
       children s' = take (nat j) ?r @ child # drop (nat j) ?r \<and>
       children s' ! nat j = child \<and>
       length (children s') = length (children s) \<and>
       (distinct (children s) \<longrightarrow> indexOf (children s') child = j) \<and>
       hook_calls (trace s') =
         hook_calls (trace s) @ (if parent s \<noteq> None then [CallMove i j child] else [])"
      by simp
  }
  with jb ex2 show ?thesis by blast
qed

text \<open>
  The amended C1 on the sequence \<open>[11, 12, 13]\<close> of an installed layout: index 0 moves the
  last child to the front, index 5 leaves it where it is.
\<close>

theorem reinsert_existing_child_witness:
  "(13::nat) \<in> set (children (snd (addChild 13 (snd (addChild 12 (snd (addChild 11
       (snd (install (panel True) new_layout)))))))))
   \<and> children (snd (insertChild (Num 0) 13 (snd (addChild 13 (snd (addChild 12 (snd (addChild 11
       (snd (install (panel True) new_layout)))))))))) = [13, 11, 12]
   \<and> children (snd (insertChild (Num 5) 13 (snd (addChild 13 (snd (addChild 12 (snd (addChild 11
       (snd (install (panel True) new_layout)))))))))) = [11, 12, 13]"
proof -
  let ?s = "snd (addChild 13 (snd (addChild 12 (snd (addChild 11
       (snd (install (panel True) new_layout)))))))"
  have c: "children ?s = [11, 12, 13]"
    by code_simp
  have m: "(13::nat) \<in> set (children ?s)"
    by (simp add: c)
  have t: "toInt32 (Num 0) = 0" "toInt32 (Num 5) = 5"
    by (simp_all add: toInt32_def trunc_number_def)
  from reinsert_existing_child [OF m, of "Num 0"] reinsert_existing_child [OF m, of "Num 5"] c m t
  show ?thesis
    by (simp add: childCount_def Let_def arrays_move_def)
qed

text \<open>
  C1 as stated fails: on \<open>[11, 12]\<close>, clamping \<open>2^31\<close> into \<open>[0, count]\<close> gives the count,
  one less is the position of 12, so the claim has \<open>insertChild(2^31, 12)\<close> do nothing;
  the code moves 12 to the front.
\<close>

theorem reinsert_plain_clamp_counterexample:
  "(12::nat) \<in> set (children (snd (addChild 12 (snd (addChild 11 new_layout))))) \<and>
   indexOf (children (snd (addChild 12 (snd (addChild 11 new_layout))))) 12 = 1 \<and>
   max 0 (min 2147483648 (childCount (snd (addChild 12 (snd (addChild 11 new_layout))))))
     = childCount (snd (addChild 12 (snd (addChild 11 new_layout)))) \<and>
   childCount (snd (addChild 12 (snd (addChild 11 new_layout)))) - 1 = 1 \<and>
   children (snd (insertChild (Num 2147483648) 12 (snd (addChild 12 (snd (addChild 11 new_layout))))))
     = [12, 11] \<and>
   children (snd (insertChild (Num 2147483648) 12 (snd (addChild 12 (snd (addChild 11 new_layout))))))
     \<noteq> children (snd (addChild 12 (snd (addChild 11 new_layout))))"
  by code_simp

text \<open>
  C2, as amended. For a child that is not in the sequence, \<open>insertChild\<close> sets the child's
  parent to the layout's container, converts the index with \<open>index | 0\<close>, clamps the
  result into \<open>[0, count]\<close> and inserts the child at exactly that position \<open>j\<close>: afterwards
  \<open>indexOf(child) = j\<close>, the count has grown by one, and \<open>attachChild(j, child)\<close> was called
  exactly when the layout has a parent.
\<close>

theorem insert_new_child:
  fixes s :: layout and child :: widget and index :: number
  assumes "child \<notin> set (children s)"
  defines "j \<equiv> max 0 (min (toInt32 index) (childCount s))"
  defines "s' \<equiv> snd (insertChild index child s)"
  shows "wparent s' child = map_option wid (parent s) \<and>
         children s' = take (nat j) (children s) @ child # drop (nat j) (children s) \<and>
         indexOf (children s') child = j \<and>
         childCount s' = childCount s + 1 \<and>
         hook_calls (trace s') =
           hook_calls (trace s) @ (if parent s \<noteq> None then [CallAttach j child] else [])"
  using insertChild_new [OF assms(1) meta_eq_to_obj_eq [OF j_def]]
  by (simp add: s'_def)

text \<open>
  The amended C2 at a fractional index: \<open>insertChild(1.5, 3)\<close> on the sequence \<open>[11, 12]\<close>
  of an installed layout.
\<close>

theorem insert_new_child_witness:
  "(3::nat) \<notin> set (children (snd (addChild 12 (snd (addChild 11 (snd (install (panel True) new_layout))))))) \<and>
   children (snd (insertChild (Num (3 / 2)) 3
      (snd (addChild 12 (snd (addChild 11 (snd (install (panel True) new_layout)))))))) = [11, 3, 12]"
proof -
  let ?s = "snd (addChild 12 (snd (addChild 11 (snd (install (panel True) new_layout)))))"
  have c: "children ?s = [11, 12]"
    by code_simp
  have m: "(3::nat) \<notin> set (children ?s)"
    by (simp add: c)
  have t: "toInt32 (Num (3 / 2)) = 1"
    by (simp add: toInt32_def trunc_number_def)
  from insert_new_child [OF m, of "Num (3 / 2)"] c m t show ?thesis
    by (simp add: childCount_def)
qed

text \<open>
  C2 as stated fails: with the sequence \<open>[11, 12]\<close>, \<open>insertChild(2^31, 3)\<close> puts the new
  child at index 0, while \<open>min(max(0, index), count)\<close> is 2.
\<close>

theorem insert_new_child_plain_clamp_counterexample:
  "(3::nat) \<notin> set (children (snd (addChild 12 (snd (addChild 11 new_layout))))) \<and>
   indexOf (children (snd (insertChild (Num 2147483648) 3
       (snd (addChild 12 (snd (addChild 11 new_layout))))))) 3 = 0 \<and>
   indexOf (children (snd (insertChild (Num 2147483648) 3
       (snd (addChild 12 (snd (addChild 11 new_layout))))))) 3
     \<noteq> min (max 0 2147483648) (childCount (snd (addChild 12 (snd (addChild 11 new_layout)))))"
  by code_simp

text \<open>
  C3, as amended. \<open>insertChild\<close> converts the index with \<open>index | 0\<close> before clamping. An
  index between \<open>-2^31 - 1\<close> and \<open>2^31\<close> is truncated towards zero. An index from \<open>2^31\<close>
  up to, but not including, \<open>2^32\<close> becomes negative and is clamped to 0, so the child
  lands at the front of the sequence; \<open>insertChild(2^31, child)\<close> is one such call.
\<close>

theorem index_or_zero:
  "(- 2147483649 < r \<and> r < 2147483648 \<longrightarrow>
      toInt32 (Num r) = (if r < 0 then \<lceil>r\<rceil> else \<lfloor>r\<rfloor>)) \<and>
   (2147483648 \<le> r \<and> r < 4294967296 \<longrightarrow>
      toInt32 (Num r) = \<lfloor>r\<rfloor> - 4294967296 \<and> toInt32 (Num r) < 0 \<and>
      children (snd (insertChild (Num r) child s)) = child # remove1 child (children s))"
proof -
  {
    assume a: "2147483648 \<le> r \<and> r < 4294967296"
    then have w: "toInt32 (Num r) = \<lfloor>r\<rfloor> - 4294967296" "toInt32 (Num r) < 0"
      by (simp_all add: toInt32_wrap)
    from w(2) have "toInt32 (Num r) \<le> 0" by simp
    from insertChild_front [OF this] w
    have "toInt32 (Num r) = \<lfloor>r\<rfloor> - 4294967296 \<and> toInt32 (Num r) < 0 \<and>
      children (snd (insertChild (Num r) child s)) = child # remove1 child (children s)"
      by simp
  }
  then show ?thesis
    using toInt32_small [of r] by blast
qed

text \<open>The amended C3 at the indices 2.5, -2.5 and \<open>2^31\<close>.\<close>

theorem index_or_zero_witness:
  "toInt32 (Num (5 / 2)) = 2 \<and> toInt32 (Num (- 5 / 2)) = - 2 \<and>
   toInt32 (Num 2147483648) = - 2147483648 \<and>
   children (snd (insertChild (Num 2147483648) 3 (snd (addChild 12 (snd (addChild 11 new_layout))))))
     = [3, 11, 12]"
proof -
  let ?s = "snd (addChild 12 (snd (addChild 11 new_layout)))"
  have c: "children ?s = [11, 12]"
    by code_simp
  from index_or_zero [of "5 / 2" 3 ?s] index_or_zero [of "- 5 / 2" 3 ?s]
    index_or_zero [of 2147483648 3 ?s] c
  show ?thesis by simp
qed

text \<open>
  C3 as stated fails for an index of \<open>2^32\<close> or more: \<open>2^32 + 1\<close> becomes 1, which is not
  negative, and the new child lands at position 1 of \<open>[11, 12]\<close>, not at the front.
\<close>

theorem index_wraps_beyond_32_bits_counterexample:
  "toInt32 (Num 4294967297) = 1 \<and> \<not> toInt32 (Num 4294967297) < 0 \<and>
   children (snd (insertChild (Num 4294967297) 3 (snd (addChild 12 (snd (addChild 11 new_layout))))))
     = [11, 3, 12]"
  by code_simp

text \<open>
  C4. The order of the nodes in the container is to be the order of the sequence at all
  times. \<open>initialize\<close> breaks it: on a layout that received the children 11, 12, 10 before
  it was installed, the first turn of the loop calls \<open>attachChild(0, 11)\<close>, whose reference
  is the node of child 12; that node is not in the container yet, \<open>insertBefore\<close> raises
  \<open>NotFoundError\<close>, and the container is left with no child node at all.
\<close>

theorem initialize_on_populated_layout:
  "children (snd (addChild 10 (snd (addChild 12 (snd (addChild 11 new_layout)))))) = [11, 12, 10] \<and>
   fst (install (panel True)
     (snd (addChild 10 (snd (addChild 12 (snd (addChild 11 new_layout))))))) = Some NotFoundError \<and>
   children (snd (install (panel True)
     (snd (addChild 10 (snd (addChild 12 (snd (addChild 11 new_layout)))))))) = [11, 12, 10] \<and>
   map_option node (parent (snd (install (panel True)
     (snd (addChild 10 (snd (addChild 12 (snd (addChild 11 new_layout))))))))) = Some [] \<and>
   messages (trace (snd (install (panel True)
     (snd (addChild 10 (snd (addChild 12 (snd (addChild 11 new_layout))))))))) = [(100, ChildAdded 11)]"
  by code_simp

text \<open>
  C5. In every state a run of the layout can reach, \<open>dispose\<close> returns, leaves the
  sequence empty, and has called \<open>dispose\<close> on the children from the last to the first,
  once on each, whether or not the disposal of a child comes back to the layout as its
  \<open>child-removed\<close> notification; every child is disposed afterwards.
\<close>

theorem dispose_pops_every_child:
  assumes "reachable s"
  shows "fst (dispose s) = None \<and> childCount (snd (dispose s)) = 0 \<and>
     dispose_calls (trace (snd (dispose s))) = dispose_calls (trace s) @ rev (children s) \<and>
     (\<forall>c \<in> set (children s).
        count_list (dispose_calls (trace (snd (dispose s)))) c =
          count_list (dispose_calls (trace s)) c + 1 \<and>
        wdisposed (snd (dispose s)) c)"
proof -
  have d: "distinct (children s)"
    using assms by (rule reachable_distinct)
  have "\<And>c. c \<in> set (children s) \<Longrightarrow> count_list (children s) c = 1"
    using d by (rule count_list_distinct)
  with dispose_distinct [OF d] show ?thesis
    by (simp add: childCount_def)
qed

text \<open>
  C5 on an installed layout with the children 11 and 12, whose parent is the container:
  the disposal of 12 sends \<open>child-removed\<close> to the container while the loop runs.
\<close>

theorem dispose_pops_every_child_witness:
  "reachable (snd (addChild 12 (snd (addChild 11 (snd (install (panel True) new_layout)))))) \<and>
   children (snd (dispose (snd (addChild 12 (snd (addChild 11 (snd (install (panel True) new_layout)))))))) = [] \<and>
   dispose_calls (trace (snd (dispose (snd (addChild 12 (snd (addChild 11
      (snd (install (panel True) new_layout))))))))) = [12, 11] \<and>
   (100, ChildRemoved 12) \<in> set (messages (trace (snd (dispose (snd (addChild 12 (snd (addChild 11
      (snd (install (panel True) new_layout))))))))))"
proof -
  let ?s = "snd (addChild 12 (snd (addChild 11 (snd (install (panel True) new_layout)))))"
  have "reachable (snd (exec (Add 12) (snd (exec (Add 11) (snd (exec (Install (panel True)) new_layout))))))"
    by (intro reachable.step reachable.fresh) (simp_all add: new_layout_def)
  then have r: "reachable ?s" by simp
  have c: "children ?s = [11, 12]" by code_simp
  have t: "dispose_calls (trace ?s) = []" by code_simp
  have m: "(100, ChildRemoved 12) \<in> set (messages (trace (snd (dispose ?s))))" by code_simp
  from dispose_pops_every_child [OF r] r c t m show ?thesis
    by (simp add: childCount_def)
qed

text \<open>
  C6. \<open>attachChild\<close> is to send \<open>after-attach\<close> to the child whenever the container is
  live. On a layout that received the children 11 and 12 before it was installed on a
  live container, the first turn of \<open>initialize\<close> calls \<open>attachChild(0, 11)\<close>. Its reference
  is the node of child 12, which is not in the container: the call raises
  \<open>NotFoundError\<close> before any \<open>after-attach\<close> is sent, and \<open>initialize\<close> ends there.
\<close>

theorem after_attach_lost_in_initialize:
  "live (snd (set_parent 11 (Some 100)
     ((snd (addChild 12 (snd (addChild 11 new_layout))))\<lparr>parent := Some (panel True)\<rparr>))) \<and>
   fst (attachChild 0 11 (snd (set_parent 11 (Some 100)
     ((snd (addChild 12 (snd (addChild 11 new_layout))))\<lparr>parent := Some (panel True)\<rparr>))))
     = Some NotFoundError \<and>
   messages (trace (snd (attachChild 0 11 (snd (set_parent 11 (Some 100)
     ((snd (addChild 12 (snd (addChild 11 new_layout))))\<lparr>parent := Some (panel True)\<rparr>))))))
     = [(100, ChildAdded 11)] \<and>
   messages (trace (snd (install (panel True) (snd (addChild 12 (snd (addChild 11 new_layout)))))))
     = [(100, ChildAdded 11)]"
  by code_simp

text \<open>
  C7. In every state a run of the layout can reach, no child occurs twice in the
  sequence, and \<open>insertChild\<close> keeps it so, for every index and every child.
\<close>

theorem child_appears_at_most_once:
  "reachable s \<Longrightarrow>
     distinct (children s) \<and> distinct (children (snd (insertChild index child s)))"
  by (simp add: reachable_distinct distinct_insertChild)

text \<open>C7 after appending 11, 12 and 11 again, and then inserting 11 at index 0.\<close>

theorem child_appears_at_most_once_witness:
  "reachable (snd (addChild 11 (snd (addChild 12 (snd (addChild 11 new_layout)))))) \<and>
   children (snd (addChild 11 (snd (addChild 12 (snd (addChild 11 new_layout)))))) = [12, 11] \<and>
   distinct (children (snd (insertChild (Num 0) 11
      (snd (addChild 11 (snd (addChild 12 (snd (addChild 11 new_layout)))))))))"
proof -
  let ?s = "snd (addChild 11 (snd (addChild 12 (snd (addChild 11 new_layout)))))"
  have "reachable (snd (exec (Add 11) (snd (exec (Add 12) (snd (exec (Add 11) new_layout))))))"
    by (intro reachable.step reachable.fresh) (simp_all add: new_layout_def)
  then have r: "reachable ?s" by simp
  have c: "children ?s = [12, 11]" by code_simp
  from child_appears_at_most_once [OF r, of "Num 0" 11] r c show ?thesis
    by simp
qed

text \<open>
  C8. In every state a run of the layout can reach, a child that is in the sequence with
  its node in the container is, after any operation, either still so or no longer in
  the sequence: it is never in the sequence with its node taken out. And every child
  the operation called \<open>detachChild\<close> for is out of the sequence when the operation ends.
\<close>

theorem attached_child_never_becomes_detached:
  assumes "reachable s" and "status s c = PresentAttached"
  shows "(status (snd (exec op s)) c = PresentAttached \<or> status (snd (exec op s)) c = Absent) \<and>
         (\<exists>ds. detach_calls (trace (snd (exec op s))) = detach_calls (trace s) @ ds \<and>
               set ds \<inter> set (children (snd (exec op s))) = {})"
proof -
  have d: "distinct (children s)"
    using assms(1) by (rule reachable_distinct)
  from not_detached_exec [OF d assms(2), of op]
  have "status (snd (exec op s)) c = PresentAttached \<or> status (snd (exec op s)) c = Absent"
    by (cases "status (snd (exec op s)) c") simp_all
  with detach_only_on_removal [OF d, of op] show ?thesis
    by blast
qed

text \<open>
  C8 for the child 11 of an installed layout: its removal notification makes it absent,
  the insertion of 12 at index 0 leaves it attached.
\<close>

theorem attached_child_never_becomes_detached_witness:
  "reachable (snd (addChild 12 (snd (addChild 11 (snd (install (panel True) new_layout)))))) \<and>
   status (snd (addChild 12 (snd (addChild 11 (snd (install (panel True) new_layout)))))) 11
     = PresentAttached \<and>
   status (snd (exec (Removed 11)
     (snd (addChild 12 (snd (addChild 11 (snd (install (panel True) new_layout)))))))) 11 = Absent \<and>
   status (snd (exec (Insert (Num 0) 12)
     (snd (addChild 12 (snd (addChild 11 (snd (install (panel True) new_layout)))))))) 11
     = PresentAttached"
proof -
  let ?s = "snd (addChild 12 (snd (addChild 11 (snd (install (panel True) new_layout)))))"
  have "reachable (snd (exec (Add 12) (snd (exec (Add 11) (snd (exec (Install (panel True)) new_layout))))))"
    by (intro reachable.step reachable.fresh) (simp_all add: new_layout_def)
  then have r: "reachable ?s" by simp
  have a: "status ?s 11 = PresentAttached" by code_simp
  have b: "status (snd (exec (Removed 11) ?s)) 11 = Absent" by code_simp
  have c: "status (snd (exec (Insert (Num 0) 12) ?s)) 11 \<noteq> Absent" by code_simp
  from attached_child_never_becomes_detached [OF r a, of "Insert (Num 0) 12"]
    attached_child_never_becomes_detached [OF r a, of "Removed 11"] r a b c
  show ?thesis by simp
qed

text \<open>
  C9. The \<open>child-removed\<close> notification for a child that is not in the sequence changes
  nothing: the sequence and the count stay, \<open>detachChild\<close> is not called, no message is
  sent and the container's node keeps its children.
\<close>

theorem removal_of_absent_child:
  "child \<notin> set (children s) \<Longrightarrow>
     onChildRemoved child s = (None, s) \<and>
     children (snd (onChildRemoved child s)) = children s \<and>
     childCount (snd (onChildRemoved child s)) = childCount s \<and>
     parent (snd (onChildRemoved child s)) = parent s \<and>
     hook_calls (trace (snd (onChildRemoved child s))) = hook_calls (trace s) \<and>
     messages (trace (snd (onChildRemoved child s))) = messages (trace s)"
  by (simp add: onChildRemoved_absent)

text \<open>C9 on an installed layout holding the child 11, for the stranger 7.\<close>

theorem removal_of_absent_child_witness:
  "(7::nat) \<notin> set (children (snd (addChild 11 (snd (install (panel True) new_layout))))) \<and>
   children (snd (onChildRemoved 7 (snd (addChild 11 (snd (install (panel True) new_layout)))))) = [11] \<and>
   hook_calls (trace (snd (onChildRemoved 7 (snd (addChild 11 (snd (install (panel True) new_layout))))))) = [CallAttach 0 11]"
proof -
  have c: "children (snd (addChild 11 (snd (install (panel True) new_layout)))) = [11]"
    by code_simp
  have h: "hook_calls (trace (snd (addChild 11 (snd (install (panel True) new_layout))))) = [CallAttach 0 11]"
    by code_simp
  have m: "(7::nat) \<notin> set (children (snd (addChild 11 (snd (install (panel True) new_layout)))))"
    by (simp add: c)
  from removal_of_absent_child [OF m] c h m show ?thesis
    by simp
qed

text \<open>
  C10. \<open>childAt\<close> returns \<open>undefined\<close> for every index outside \<open>[0, count)\<close>, also for \<open>NaN\<close>,
  the infinities and a fractional index, and the child at position \<open>k\<close> for every integer
  \<open>k\<close> in \<open>[0, count)\<close>. It is a function of the state that returns a value only: it
  cannot fail and changes nothing.
\<close>

theorem childAt_never_fails:
  "(r < 0 \<or> of_int (childCount s) \<le> r \<longrightarrow> childAt s (Num r) = None) \<and>
   childAt s NaN = None \<and> childAt s PosInfinity = None \<and> childAt s NegInfinity = None \<and>
   (r \<noteq> of_int \<lfloor>r\<rfloor> \<longrightarrow> childAt s (Num r) = None) \<and>
   (0 \<le> k \<and> k < childCount s \<longrightarrow> childAt s (Num (of_int k)) = Some (children s ! nat k))"
  by (auto simp add: childAt_def)

text \<open>C10 on the sequence \<open>[11, 12]\<close>, at the indices 2, -1, 0.5 and 1.\<close>

theorem childAt_never_fails_witness:
  "childAt (snd (addChild 12 (snd (addChild 11 new_layout)))) (Num 2) = None \<and>
   childAt (snd (addChild 12 (snd (addChild 11 new_layout)))) (Num (- 1)) = None \<and>
   childAt (snd (addChild 12 (snd (addChild 11 new_layout)))) (Num (1 / 2)) = None \<and>
   childAt (snd (addChild 12 (snd (addChild 11 new_layout)))) (Num 1) = Some 12"
proof -
  let ?s = "snd (addChild 12 (snd (addChild 11 new_layout)))"
  have c: "children ?s = [11, 12]"
    by code_simp
  have n: "childCount ?s = 2"
    by (simp add: childCount_def c)
  from childAt_never_fails [of 2 ?s 1] childAt_never_fails [of "- 1" ?s 1]
    childAt_never_fails [of "1 / 2" ?s 1] n c
  show ?thesis by simp
qed

end
